theory Spec2Isabelle
  imports Complex_Main
begin

section \<open>Machine sizes and the allocator\<close>

text \<open>
  \<open>size_t\<close> is modelled as \<open>nat\<close> on a 64-bit platform. Where the source does arithmetic
  it does not check, the wrap-around is written out (\<open>sz\<close>, \<open>sz_sub\<close>).
  A function that can leave defined behaviour returns an \<open>option\<close>: \<open>None\<close> stands for a
  run in which an \<open>EBM_ASSERT\<close> of the source fails or a buffer is read or written outside
  its allocation. The assertions about \<open>k_cDimensionsMax\<close>, about null pointers and about
  the limits of the template types are not modelled.
\<close>

definition size_max :: nat where
  "size_max = 18446744073709551615"

definition sz :: "nat \<Rightarrow> nat" where
  "sz n = n mod 18446744073709551616"

definition sz_sub :: "nat \<Rightarrow> nat \<Rightarrow> nat" where
  "sz_sub a b = (if b \<le> a then a - b else a + 18446744073709551616 - b)"

text \<open>
  Modelled from the spec: \<open>IsAddError\<close> and \<open>IsMultiplyError\<close> are declared in
  EbmInternal.h, which is not among the sources. Section 4.1 of the specification describes
  them as the predicates telling whether an addition or a multiplication overflows the
  machine word-size unsigned integer.
\<close>

definition IsAddError :: "nat \<Rightarrow> nat \<Rightarrow> bool" where
  "IsAddError a b = (size_max < a + b)"

definition IsMultiplyError :: "nat \<Rightarrow> nat \<Rightarrow> bool" where
  "IsMultiplyError a b = (size_max < a * b)"

text \<open>\<open>sizeof(TDivisions)\<close> and \<open>sizeof(TValues)\<close> for \<open>size_t\<close> divisions and \<open>double\<close> scores.\<close>

definition sizeof_TDivisions :: nat where
  "sizeof_TDivisions = 8"

definition sizeof_TValues :: nat where
  "sizeof_TValues = 8"

text \<open>
  The allocator is an oracle: the outcomes of the successive \<open>malloc\<close> and \<open>realloc\<close>
  requests (an exhausted list refuses every request), and the contents that freshly
  allocated cells happen to hold.
\<close>

record 'v Heap =
  h_outcomes :: "bool list"
  h_fresh_div :: "nat \<Rightarrow> nat"
  h_fresh_val :: "nat \<Rightarrow> 'v"

definition heap_request :: "'v Heap \<Rightarrow> bool \<times> 'v Heap" where
  "heap_request h =
     (case h_outcomes h of
        [] \<Rightarrow> (False, h)
      | b # bs \<Rightarrow> (b, h\<lparr>h_outcomes := bs\<rparr>))"

text \<open>A successful \<open>realloc\<close> to \<open>n\<close> cells keeps the old cells below \<open>n\<close>.\<close>

definition realloc :: "'a list \<Rightarrow> nat \<Rightarrow> (nat \<Rightarrow> 'a) \<Rightarrow> 'a list" where
  "realloc xs n fresh = map (\<lambda>i. if i < length xs then xs ! i else fresh i) [0..<n]"

section \<open>The segmented tensor\<close>

record DimensionInfo =
  m_cDivisions :: nat
  m_aDivisions :: "nat list"
  m_cDivisionCapacity :: nat

record 'v SegmentedTensor =
  m_cValueCapacity :: nat
  m_cVectorLength :: nat
  m_cDimensionsMax :: nat
  m_cDimensions :: nat
  m_aValues :: "'v list"
  m_bExpanded :: bool
  m_aDimensions :: "DimensionInfo list"

record DimensionInfoStack =
  m_pDivision1 :: nat
  m_pDivision2 :: nat
  m_cNewDivisions :: nat

record DimensionInfoStackExpand =
  e_pDivision1 :: nat
  e_iDivision2 :: nat
  e_cNewDivisions :: nat

definition k_initialDivisionCapacity :: nat where
  "k_initialDivisionCapacity = 1"

definition k_initialValueCapacity :: nat where
  "k_initialValueCapacity = 2"

subsection \<open>Allocate\<close>

text \<open>
  The loop of \<open>Allocate\<close> over the dimensions: one \<open>malloc\<close> per dimension; \<open>None\<close> when
  one of them fails (the source then frees everything and returns \<open>nullptr\<close>).
\<close>

fun allocate_dimensions :: "'v Heap \<Rightarrow> nat \<Rightarrow> ('v Heap \<times> DimensionInfo list) option" where
  "allocate_dimensions h 0 = Some (h, [])"
| "allocate_dimensions h (Suc n) =
     (case heap_request h of
        (False, h1) \<Rightarrow> None
      | (True, h1) \<Rightarrow>
          (case allocate_dimensions h1 n of
             None \<Rightarrow> None
           | Some (h2, ds) \<Rightarrow>
               Some (h2, \<lparr>m_cDivisions = 0,
                          m_aDivisions = map (h_fresh_div h) [0..<k_initialDivisionCapacity],
                          m_cDivisionCapacity = k_initialDivisionCapacity\<rparr> # ds)))"

text \<open>
  \<open>Allocate\<close>: the outer \<open>option\<close> is the assertion \<open>1 <= cVectorLength\<close>, the inner one
  the returned pointer (\<open>None\<close> for \<open>nullptr\<close>).
\<close>

definition Allocate :: "'v::zero Heap \<Rightarrow> nat \<Rightarrow> nat \<Rightarrow> ('v SegmentedTensor option) option" where
  "Allocate h cDimensionsMax cVectorLength =
     (if \<not> 1 \<le> cVectorLength then None
      else if IsMultiplyError cVectorLength k_initialValueCapacity then Some None
      else
        let cValueCapacity = cVectorLength * k_initialValueCapacity in
        if IsMultiplyError sizeof_TValues cValueCapacity then Some None
        else
          (case heap_request h of
             (False, h1) \<Rightarrow> Some None
           | (True, h1) \<Rightarrow>
               (case heap_request h1 of
                  (False, h2) \<Rightarrow> Some None
                | (True, h2) \<Rightarrow>
                    (case allocate_dimensions h2 cDimensionsMax of
                       None \<Rightarrow> Some None
                     | Some (h3, ds) \<Rightarrow>
                         Some (Some \<lparr>m_cValueCapacity = cValueCapacity,
                                     m_cVectorLength = cVectorLength,
                                     m_cDimensionsMax = cDimensionsMax,
                                     m_cDimensions = cDimensionsMax,
                                     m_aValues = map (\<lambda>i. if i < cVectorLength then 0 else h_fresh_val h i)
                                                   [0..<cValueCapacity],
                                     m_bExpanded = False,
                                     m_aDimensions = ds\<rparr>)))))"

subsection \<open>SetCountDimensions, Reset\<close>

definition SetCountDimensions :: "nat \<Rightarrow> 'v SegmentedTensor \<Rightarrow> 'v SegmentedTensor option" where
  "SetCountDimensions cDimensions t =
     (if \<not> cDimensions \<le> m_cDimensionsMax t then None
      else Some (t\<lparr>m_cDimensions := cDimensions\<rparr>))"

text \<open>
  \<open>Reset\<close>: the loop sets the division count of each active dimension to zero, the
  \<open>memset\<close> clears the first \<open>m_cVectorLength\<close> scores.
\<close>

definition Reset :: "'v::zero SegmentedTensor \<Rightarrow> 'v SegmentedTensor option" where
  "Reset t =
     (if length (m_aDimensions t) < m_cDimensions t \<or> length (m_aValues t) < m_cVectorLength t then None
      else Some (t\<lparr>m_aDimensions :=
                     map (\<lambda>d. d\<lparr>m_cDivisions := 0\<rparr>) (take (m_cDimensions t) (m_aDimensions t))
                       @ drop (m_cDimensions t) (m_aDimensions t),
                   m_aValues := replicate (m_cVectorLength t) 0 @ drop (m_cVectorLength t) (m_aValues t),
                   m_bExpanded := False\<rparr>))"

subsection \<open>SetCountDivisions, EnsureValueCapacity\<close>

text \<open>
  The C++ functions return \<open>true\<close> on failure; the model returns that flag together with
  the allocator and the tensor as the call leaves them.
\<close>

definition SetCountDivisions ::
  "'v Heap \<Rightarrow> nat \<Rightarrow> nat \<Rightarrow> 'v SegmentedTensor \<Rightarrow> (bool \<times> 'v Heap \<times> 'v SegmentedTensor) option" where
  "SetCountDivisions h iDimension cDivisions t =
     (if \<not> iDimension < m_cDimensions t \<or> \<not> iDimension < length (m_aDimensions t) then None
      else
        let pDimension = m_aDimensions t ! iDimension in
        if \<not> (\<not> m_bExpanded t \<or> cDivisions \<le> m_cDivisions pDimension) then None
        else if m_cDivisionCapacity pDimension < cDivisions then
          (if m_bExpanded t then None
           else if IsAddError cDivisions (cDivisions div 2) then Some (True, h, t)
           else
             let cNewDivisionCapacity = cDivisions + cDivisions div 2 in
             if IsMultiplyError sizeof_TDivisions cNewDivisionCapacity then Some (True, h, t)
             else
               (case heap_request h of
                  (False, h1) \<Rightarrow> Some (True, h1, t)
                | (True, h1) \<Rightarrow>
                    Some (False, h1,
                      t\<lparr>m_aDimensions := (m_aDimensions t)[iDimension :=
                          pDimension\<lparr>m_aDivisions :=
                                        realloc (m_aDivisions pDimension) cNewDivisionCapacity (h_fresh_div h),
                                      m_cDivisionCapacity := cNewDivisionCapacity,
                                      m_cDivisions := cDivisions\<rparr>]\<rparr>)))
        else
          Some (False, h,
            t\<lparr>m_aDimensions := (m_aDimensions t)[iDimension := pDimension\<lparr>m_cDivisions := cDivisions\<rparr>]\<rparr>))"

definition EnsureValueCapacity ::
  "'v Heap \<Rightarrow> nat \<Rightarrow> 'v SegmentedTensor \<Rightarrow> (bool \<times> 'v Heap \<times> 'v SegmentedTensor) option" where
  "EnsureValueCapacity h cValues t =
     (if m_cValueCapacity t < cValues then
        (if m_bExpanded t then None
         else if IsAddError cValues (cValues div 2) then Some (True, h, t)
         else
           let cNewValueCapacity = cValues + cValues div 2 in
           if IsMultiplyError sizeof_TValues cNewValueCapacity then Some (True, h, t)
           else
             (case heap_request h of
                (False, h1) \<Rightarrow> Some (True, h1, t)
              | (True, h1) \<Rightarrow>
                  Some (False, h1,
                    t\<lparr>m_aValues := realloc (m_aValues t) cNewValueCapacity (h_fresh_val h),
                      m_cValueCapacity := cNewValueCapacity\<rparr>)))
      else Some (False, h, t))"

subsection \<open>Expand\<close>

text \<open>
  The first loop of \<open>Expand\<close> (lines 353 to 371): the counts of old and new cells, and
  the cursor stack, one entry per active dimension. Pointers into a division array are
  indices; \<open>m_pDivision1\<close> starts at the end of the old divisions.
\<close>

fun expand_first ::
  "DimensionInfo list \<Rightarrow> nat list \<Rightarrow> nat \<Rightarrow> nat \<Rightarrow> (nat \<times> nat \<times> DimensionInfoStackExpand list) option" where
  "expand_first [] acValuesPerDimension cValues1 cNewValues = Some (cValues1, cNewValues, [])"
| "expand_first (pDimensionFirst1 # ds) [] cValues1 cNewValues = None"
| "expand_first (pDimensionFirst1 # ds) (cValuesPerDimension # bs) cValues1 cNewValues =
     (let cDivisions1 = m_cDivisions pDimensionFirst1 in
      if IsMultiplyError cValues1 (cDivisions1 + 1) then None
      else if IsMultiplyError cNewValues cValuesPerDimension then None
      else
        let cNewDivisions = sz_sub cValuesPerDimension 1 in
        (case expand_first ds bs (cValues1 * (cDivisions1 + 1)) (cNewValues * cValuesPerDimension) of
           None \<Rightarrow> None
         | Some (c1, cn, st) \<Rightarrow>
             Some (c1, cn,
               \<lparr>e_pDivision1 = cDivisions1, e_iDivision2 = cNewDivisions,
                e_cNewDivisions = cNewDivisions\<rparr> # st)))"

text \<open>
  The \<open>do\<close> loop of lines 397 to 401 copies one score vector downwards, from below
  \<open>pValue1Move\<close> to below \<open>pValueTop\<close>, inside the same array.
\<close>

function expand_copy :: "nat \<Rightarrow> nat \<Rightarrow> nat \<Rightarrow> 'v list \<Rightarrow> 'v list option" where
  "expand_copy pValueTopEnd pValue1Move pValueTop aValues =
     (if pValue1Move = 0 \<or> pValueTop = 0 \<or> length aValues < pValue1Move \<or> length aValues < pValueTop
      then None
      else
        let aValues' = aValues[pValueTop - 1 := aValues ! (pValue1Move - 1)] in
        if pValueTopEnd \<noteq> pValueTop - 1
        then expand_copy pValueTopEnd (pValue1Move - 1) (pValueTop - 1) aValues'
        else Some aValues')"
  by pat_completeness auto
termination
  by (relation "measure (\<lambda>(e, m, t, a). t)") auto

declare expand_copy.simps [simp del]

text \<open>
  The inner \<open>while\<close> loop of lines 417 to 460 moves the cursors to the next cell to fill:
  it steps the cursor of the first dimension that is not exhausted and rewinds the
  dimensions before it. Running past the last stack entry is \<open>None\<close>.
\<close>

fun expand_advance ::
  "DimensionInfoStackExpand list \<Rightarrow> DimensionInfo list \<Rightarrow> nat \<Rightarrow> nat \<Rightarrow>
   (DimensionInfoStackExpand list \<times> nat) option" where
  "expand_advance [] ds multiplication1 pValue1 = None"
| "expand_advance (s # st) [] multiplication1 pValue1 = None"
| "expand_advance (s # st) (pDimensionSecond1 # ds) multiplication1 pValue1 =
     (let pDivision1 = e_pDivision1 s;
          iDivision2 = e_iDivision2 s;
          aDivisions1 = m_aDivisions pDimensionSecond1 in
      if 0 < pDivision1 then
        (if \<not> 0 < iDivision2 then None
         else if length aDivisions1 < pDivision1 then None
         else
           let d1 = aDivisions1 ! (pDivision1 - 1);
               iDivision2 = iDivision2 - 1;
               bMove = (iDivision2 \<le> d1) in
           if bMove \<and> pValue1 < multiplication1 then None
           else
             Some (s\<lparr>e_pDivision1 := (if bMove then pDivision1 - 1 else pDivision1),
                     e_iDivision2 := iDivision2\<rparr> # st,
                   if bMove then pValue1 - multiplication1 else pValue1))
      else if 0 < iDivision2 then Some (s\<lparr>e_iDivision2 := iDivision2 - 1\<rparr> # st, pValue1)
      else
        (if pValue1 < multiplication1 then None
         else
           let pValue1 = pValue1 - multiplication1;
               cDivisions1 = m_cDivisions pDimensionSecond1 in
           if IsMultiplyError multiplication1 (1 + cDivisions1) then None
           else
             let multiplication1 = multiplication1 * (1 + cDivisions1);
                 pValue1 = pValue1 + multiplication1 in
             (case expand_advance st ds multiplication1 pValue1 of
                None \<Rightarrow> None
              | Some (st', pValue1') \<Rightarrow>
                  Some (s\<lparr>e_pDivision1 := cDivisions1, e_iDivision2 := e_cNewDivisions s\<rparr> # st',
                        pValue1'))))"

text \<open>The outer \<open>while\<close> loop of lines 394 to 461.\<close>

function expand_loop ::
  "nat \<Rightarrow> DimensionInfo list \<Rightarrow> DimensionInfoStackExpand list \<Rightarrow> nat \<Rightarrow> nat \<Rightarrow> 'v list \<Rightarrow>
   (DimensionInfoStackExpand list \<times> nat \<times> 'v list) option" where
  "expand_loop cVectorLength aDimension1 aStack pValue1 pValueTop aValues =
     (if cVectorLength = 0 \<or> pValueTop < cVectorLength then None
      else
        (case expand_copy (pValueTop - cVectorLength) pValue1 pValueTop aValues of
           None \<Rightarrow> None
         | Some aValues' \<Rightarrow>
             if pValueTop - cVectorLength = 0 then Some (aStack, pValue1, aValues')
             else
               (case expand_advance aStack aDimension1 cVectorLength pValue1 of
                  None \<Rightarrow> None
                | Some (aStack', pValue1') \<Rightarrow>
                    expand_loop cVectorLength aDimension1 aStack' pValue1'
                      (pValueTop - cVectorLength) aValues')))"
  by pat_completeness auto
termination
  by (relation "measure (\<lambda>(l, d, s, p, t, a). t)") auto

declare expand_loop.simps [simp del]

text \<open>
  The last loop of \<open>Expand\<close> (lines 466 to 481), over the dimension indices: a dimension
  whose division count already is the new one is skipped; otherwise the count is set and
  the divisions \<open>0, 1, ...\<close> are written.
\<close>

fun expand_divisions ::
  "nat list \<Rightarrow> nat list \<Rightarrow> 'v Heap \<Rightarrow> 'v SegmentedTensor \<Rightarrow>
   (bool \<times> 'v Heap \<times> 'v SegmentedTensor) option" where
  "expand_divisions [] acValuesPerDimension h t = Some (False, h, t)"
| "expand_divisions (iDimension # rest) acValuesPerDimension h t =
     (if \<not> iDimension < length acValuesPerDimension \<or> \<not> iDimension < length (m_aDimensions t) then None
      else
        let cDivisions = sz_sub (acValuesPerDimension ! iDimension) 1 in
        if cDivisions = m_cDivisions (m_aDimensions t ! iDimension)
        then expand_divisions rest acValuesPerDimension h t
        else
          (case SetCountDivisions h iDimension cDivisions t of
             None \<Rightarrow> None
           | Some (True, h1, t1) \<Rightarrow> Some (True, h1, t1)
           | Some (False, h1, t1) \<Rightarrow>
               let pDimension = m_aDimensions t1 ! iDimension in
               if length (m_aDivisions pDimension) < cDivisions then None
               else
                 expand_divisions rest acValuesPerDimension h1
                   (t1\<lparr>m_aDimensions := (m_aDimensions t1)[iDimension :=
                         pDimension\<lparr>m_aDivisions :=
                           fold (\<lambda>iDivision a. a[iDivision := iDivision]) [0..<cDivisions]
                             (m_aDivisions pDimension)\<rparr>]\<rparr>)))"

definition Expand ::
  "'v Heap \<Rightarrow> nat list \<Rightarrow> 'v SegmentedTensor \<Rightarrow> (bool \<times> 'v Heap \<times> 'v SegmentedTensor) option" where
  "Expand h acValuesPerDimension t =
     (if \<not> 1 \<le> m_cDimensions t then None
      else if m_bExpanded t then Some (False, h, t)
      else if length (m_aDimensions t) < m_cDimensions t then None
      else
        (case expand_first (take (m_cDimensions t) (m_aDimensions t)) acValuesPerDimension 1 1 of
           None \<Rightarrow> None
         | Some (cValues1, cNewValues, aStack) \<Rightarrow>
             if IsMultiplyError cNewValues (m_cVectorLength t) then Some (True, h, t)
             else
               let cVectoredNewValues = cNewValues * m_cVectorLength t in
               (case EnsureValueCapacity h cVectoredNewValues t of
                  None \<Rightarrow> None
                | Some (True, h1, t1) \<Rightarrow> Some (True, h1, t1)
                | Some (False, h1, t1) \<Rightarrow>
                    if \<not> cValues1 \<le> cNewValues \<or> IsMultiplyError (m_cVectorLength t1) cValues1 then None
                    else
                      (case expand_loop (m_cVectorLength t1) (m_aDimensions t1) aStack
                              (m_cVectorLength t1 * cValues1) cVectoredNewValues (m_aValues t1) of
                         None \<Rightarrow> None
                       | Some (aStack', pValue1, aValues') \<Rightarrow>
                           if pValue1 \<noteq> m_cVectorLength t1 then None
                           else
                             (case expand_divisions [0..<m_cDimensions t1] acValuesPerDimension h1
                                     (t1\<lparr>m_aValues := aValues'\<rparr>) of
                                None \<Rightarrow> None
                              | Some (True, h2, t2) \<Rightarrow> Some (True, h2, t2)
                              | Some (False, h2, t2) \<Rightarrow> Some (False, h2, t2\<lparr>m_bExpanded := True\<rparr>))))))"

subsection \<open>Add\<close>

text \<open>
  The forward merge of lines 566 to 585 counts the divisions of the union of the two
  division arrays of one dimension.
\<close>

function add_count ::
  "nat list \<Rightarrow> nat list \<Rightarrow> nat \<Rightarrow> nat \<Rightarrow> nat \<Rightarrow> nat \<Rightarrow> nat \<Rightarrow> nat option" where
  "add_count aDivisions1 aDivisions2 p1Cur p1End p2Cur p2End cNewSingleDimensionDivisions =
     (if p2End = p2Cur then Some (sz (cNewSingleDimensionDivisions + (p1End - p1Cur)))
      else if p1End = p1Cur then Some (sz (cNewSingleDimensionDivisions + (p2End - p2Cur)))
      else if \<not> p1Cur < length aDivisions1 \<or> \<not> p2Cur < length aDivisions2 then None
      else
        let d1 = aDivisions1 ! p1Cur;
            d2 = aDivisions2 ! p2Cur in
        add_count aDivisions1 aDivisions2
          (if d1 \<le> d2 then p1Cur + 1 else p1Cur) p1End
          (if d2 \<le> d1 then p2Cur + 1 else p2Cur) p2End
          (sz (cNewSingleDimensionDivisions + 1)))"
  by pat_completeness auto
termination
  by (relation "measure (\<lambda>(a1, a2, p1, e1, p2, e2, c). (length a1 - p1) + (length a2 - p2))") auto

declare add_count.simps [simp del]

text \<open>
  The first loop of \<open>Add\<close> (lines 548 to 594), over the dimensions of both operands: the
  cell counts of the operands and of the result, and the cursor stack.
\<close>

fun add_first ::
  "DimensionInfo list \<Rightarrow> DimensionInfo list \<Rightarrow> nat \<Rightarrow> nat \<Rightarrow> nat \<Rightarrow>
   (nat \<times> nat \<times> nat \<times> DimensionInfoStack list) option" where
  "add_first [] ds2 cValues1 cValues2 cNewValues = Some (cValues1, cValues2, cNewValues, [])"
| "add_first (pDimensionFirst1 # ds1) [] cValues1 cValues2 cNewValues = None"
| "add_first (pDimensionFirst1 # ds1) (pDimensionFirst2 # ds2) cValues1 cValues2 cNewValues =
     (let cDivisions1 = m_cDivisions pDimensionFirst1;
          cDivisions2 = m_cDivisions pDimensionFirst2 in
      (case add_count (m_aDivisions pDimensionFirst1) (m_aDivisions pDimensionFirst2)
              0 cDivisions1 0 cDivisions2 0 of
         None \<Rightarrow> None
       | Some cNewSingleDimensionDivisions \<Rightarrow>
           if IsMultiplyError cNewValues (cNewSingleDimensionDivisions + 1) then None
           else
             (case add_first ds1 ds2 (sz (cValues1 * (cDivisions1 + 1))) (sz (cValues2 * (cDivisions2 + 1)))
                     (cNewValues * (cNewSingleDimensionDivisions + 1)) of
                None \<Rightarrow> None
              | Some (c1, c2, cn, st) \<Rightarrow>
                  Some (c1, c2, cn,
                    \<lparr>m_pDivision1 = cDivisions1, m_pDivision2 = cDivisions2,
                     m_cNewDivisions = cNewSingleDimensionDivisions\<rparr> # st))))"

text \<open>
  The \<open>do\<close> loop of lines 621 to 626 writes one score vector of the result: the sum of a
  vector of this tensor (read below \<open>pValue1Move\<close> in the array being written) and one of
  \<open>rhs\<close> (read below \<open>pValue2Move\<close>).
\<close>

function add_copy :: "nat \<Rightarrow> nat \<Rightarrow> nat \<Rightarrow> nat \<Rightarrow> 'v::plus list \<Rightarrow> 'v list \<Rightarrow> 'v list option" where
  "add_copy pValueTopEnd pValue1Move pValue2Move pValueTop aValues aValues2 =
     (if pValue1Move = 0 \<or> pValue2Move = 0 \<or> pValueTop = 0 \<or> length aValues < pValue1Move
         \<or> length aValues2 < pValue2Move \<or> length aValues < pValueTop
      then None
      else
        let aValues' = aValues[pValueTop - 1 := aValues ! (pValue1Move - 1) + aValues2 ! (pValue2Move - 1)] in
        if pValueTopEnd \<noteq> pValueTop - 1
        then add_copy pValueTopEnd (pValue1Move - 1) (pValue2Move - 1) (pValueTop - 1) aValues' aValues2
        else Some aValues')"
  by pat_completeness auto
termination
  by (relation "measure (\<lambda>(e, m1, m2, t, a, a2). t)") auto

declare add_copy.simps [simp del]

text \<open>
  The inner \<open>while\<close> loop of lines 644 to 700: one step of the backwards merge in the
  first dimension that is not exhausted in both operands, after rewinding the dimensions
  before it.
\<close>

fun add_advance ::
  "DimensionInfoStack list \<Rightarrow> DimensionInfo list \<Rightarrow> DimensionInfo list \<Rightarrow> nat \<Rightarrow> nat \<Rightarrow> nat \<Rightarrow> nat \<Rightarrow>
   (DimensionInfoStack list \<times> nat \<times> nat) option" where
  "add_advance [] ds1 ds2 multiplication1 multiplication2 pValue1 pValue2 = None"
| "add_advance (s # st) [] ds2 multiplication1 multiplication2 pValue1 pValue2 = None"
| "add_advance (s # st) (pDimensionSecond1 # ds1) [] multiplication1 multiplication2 pValue1 pValue2 = None"
| "add_advance (s # st) (pDimensionSecond1 # ds1) (pDimensionSecond2 # ds2)
      multiplication1 multiplication2 pValue1 pValue2 =
     (let pDivision1 = m_pDivision1 s;
          pDivision2 = m_pDivision2 s;
          aDivisions1 = m_aDivisions pDimensionSecond1;
          aDivisions2 = m_aDivisions pDimensionSecond2 in
      if 0 < pDivision1 then
        (if 0 < pDivision2 then
           (if length aDivisions1 < pDivision1 \<or> length aDivisions2 < pDivision2 then None
            else
              let d1 = aDivisions1 ! (pDivision1 - 1);
                  d2 = aDivisions2 ! (pDivision2 - 1);
                  bMove1 = (d2 \<le> d1);
                  bMove2 = (d1 \<le> d2) in
              if (bMove1 \<and> pValue1 < multiplication1) \<or> (bMove2 \<and> pValue2 < multiplication2) then None
              else
                Some (s\<lparr>m_pDivision1 := (if bMove1 then pDivision1 - 1 else pDivision1),
                        m_pDivision2 := (if bMove2 then pDivision2 - 1 else pDivision2)\<rparr> # st,
                      if bMove1 then pValue1 - multiplication1 else pValue1,
                      if bMove2 then pValue2 - multiplication2 else pValue2))
         else
           (if pValue1 < multiplication1 then None
            else Some (s\<lparr>m_pDivision1 := pDivision1 - 1\<rparr> # st, pValue1 - multiplication1, pValue2)))
      else
        (if 0 < pDivision2 then
           (if pValue2 < multiplication2 then None
            else Some (s\<lparr>m_pDivision2 := pDivision2 - 1\<rparr> # st, pValue1, pValue2 - multiplication2))
         else
           (if pValue1 < multiplication1 \<or> pValue2 < multiplication2 then None
            else
              let pValue1 = pValue1 - multiplication1;
                  pValue2 = pValue2 - multiplication2;
                  cDivisions1 = m_cDivisions pDimensionSecond1;
                  cDivisions2 = m_cDivisions pDimensionSecond2 in
              if IsMultiplyError multiplication1 (1 + cDivisions1)
                 \<or> IsMultiplyError multiplication2 (1 + cDivisions2) then None
              else
                let multiplication1 = multiplication1 * (1 + cDivisions1);
                    multiplication2 = multiplication2 * (1 + cDivisions2);
                    pValue1 = pValue1 + multiplication1;
                    pValue2 = pValue2 + multiplication2 in
                (case add_advance st ds1 ds2 multiplication1 multiplication2 pValue1 pValue2 of
                   None \<Rightarrow> None
                 | Some (st', pValue1', pValue2') \<Rightarrow>
                     Some (s\<lparr>m_pDivision1 := cDivisions1, m_pDivision2 := cDivisions2\<rparr> # st',
                           pValue1', pValue2')))))"

text \<open>The outer \<open>while\<close> loop of lines 617 to 701.\<close>

function add_loop ::
  "nat \<Rightarrow> DimensionInfo list \<Rightarrow> DimensionInfo list \<Rightarrow> DimensionInfoStack list \<Rightarrow>
   nat \<Rightarrow> nat \<Rightarrow> nat \<Rightarrow> 'v::plus list \<Rightarrow> 'v list \<Rightarrow>
   (DimensionInfoStack list \<times> nat \<times> nat \<times> 'v list) option" where
  "add_loop cVectorLength aDimension1 aDimension2 dimensionStack pValue1 pValue2 pValueTop aValues aValues2 =
     (if cVectorLength = 0 \<or> pValueTop < cVectorLength then None
      else
        (case add_copy (pValueTop - cVectorLength) pValue1 pValue2 pValueTop aValues aValues2 of
           None \<Rightarrow> None
         | Some aValues' \<Rightarrow>
             if pValueTop - cVectorLength = 0 then Some (dimensionStack, pValue1, pValue2, aValues')
             else
               (case add_advance dimensionStack aDimension1 aDimension2 cVectorLength cVectorLength
                       pValue1 pValue2 of
                  None \<Rightarrow> None
                | Some (dimensionStack', pValue1', pValue2') \<Rightarrow>
                    add_loop cVectorLength aDimension1 aDimension2 dimensionStack' pValue1' pValue2'
                      (pValueTop - cVectorLength) aValues' aValues2)))"
  by pat_completeness auto
termination
  by (relation "measure (\<lambda>(l, d1, d2, s, p1, p2, t, a, a2). t)") auto

declare add_loop.simps [simp del]

text \<open>
  The backwards merge of lines 728 to 760 writes the union of the divisions into the
  division array of this tensor, from the top down; when as many cells are left to fill as
  \<open>rhs\<close> has divisions left, the \<open>memcpy\<close> copies them.
\<close>

function add_merge :: "nat list \<Rightarrow> nat list \<Rightarrow> nat \<Rightarrow> nat \<Rightarrow> nat \<Rightarrow> nat list option" where
  "add_merge aDivisions1 aDivisions2 p1Cur p2Cur pTopCur =
     (if \<not> p1Cur \<le> pTopCur \<or> \<not> p2Cur \<le> pTopCur then None
      else if pTopCur = p1Cur then Some aDivisions1
      else if pTopCur = p2Cur then
        (if length aDivisions1 < pTopCur \<or> length aDivisions2 < pTopCur then None
         else Some (take pTopCur aDivisions2 @ drop pTopCur aDivisions1))
      else if p1Cur = 0 \<or> p2Cur = 0 \<or> length aDivisions1 < p1Cur \<or> length aDivisions2 < p2Cur
              \<or> length aDivisions1 < pTopCur then None
      else
        let d1 = aDivisions1 ! (p1Cur - 1);
            d2 = aDivisions2 ! (p2Cur - 1);
            d = (if d1 \<le> d2 then d2 else d1) in
        add_merge (aDivisions1[pTopCur - 1 := d]) aDivisions2
          (if d2 \<le> d1 then p1Cur - 1 else p1Cur)
          (if d1 \<le> d2 then p2Cur - 1 else p2Cur)
          (pTopCur - 1))"
  by pat_completeness auto
termination
  by (relation "measure (\<lambda>(a1, a2, p1, p2, t). t)") auto

declare add_merge.simps [simp del]

text \<open>The last loop of \<open>Add\<close> (lines 713 to 765), over the dimension indices.\<close>

fun add_divisions ::
  "nat list \<Rightarrow> DimensionInfoStack list \<Rightarrow> DimensionInfo list \<Rightarrow> 'v Heap \<Rightarrow> 'v SegmentedTensor \<Rightarrow>
   (bool \<times> 'v Heap \<times> 'v SegmentedTensor) option" where
  "add_divisions [] dimensionStack aDimension2 h t = Some (False, h, t)"
| "add_divisions (iDimension # rest) dimensionStack aDimension2 h t =
     (if \<not> iDimension < length dimensionStack \<or> \<not> iDimension < length (m_aDimensions t)
         \<or> \<not> iDimension < length aDimension2 then None
      else
        let cNewDivisions = m_cNewDivisions (dimensionStack ! iDimension);
            cOriginalDivisionsBeforeSetting = m_cDivisions (m_aDimensions t ! iDimension) in
        (case SetCountDivisions h iDimension cNewDivisions t of
           None \<Rightarrow> None
         | Some (True, h1, t1) \<Rightarrow> Some (True, h1, t1)
         | Some (False, h1, t1) \<Rightarrow>
             let pDimension1Cur = m_aDimensions t1 ! iDimension;
                 pDimension2Cur = aDimension2 ! iDimension in
             (case add_merge (m_aDivisions pDimension1Cur) (m_aDivisions pDimension2Cur)
                     cOriginalDivisionsBeforeSetting (m_cDivisions pDimension2Cur) cNewDivisions of
                None \<Rightarrow> None
              | Some aDivisions' \<Rightarrow>
                  add_divisions rest dimensionStack aDimension2 h1
                    (t1\<lparr>m_aDimensions := (m_aDimensions t1)[iDimension :=
                          pDimension1Cur\<lparr>m_aDivisions := aDivisions'\<rparr>]\<rparr>))))"

text \<open>
  The \<open>do\<close> loop of lines 519 to 523, for a tensor without dimensions: the scores of
  \<open>rhs\<close> are added in place, from index \<open>pTo\<close> up to \<open>pToEnd\<close>.
\<close>

function add_zero :: "nat \<Rightarrow> nat \<Rightarrow> 'v::plus list \<Rightarrow> 'v list \<Rightarrow> 'v list option" where
  "add_zero pToEnd pTo aValues aValues2 =
     (if \<not> pTo < length aValues \<or> \<not> pTo < length aValues2 then None
      else
        let aValues' = aValues[pTo := aValues ! pTo + aValues2 ! pTo] in
        if pToEnd \<noteq> pTo + 1 then add_zero pToEnd (pTo + 1) aValues' aValues2
        else Some aValues')"
  by pat_completeness auto
termination
  by (relation "measure (\<lambda>(e, p, a, a2). length a - p)") auto

declare add_zero.simps [simp del]

definition Add ::
  "'v::plus Heap \<Rightarrow> 'v SegmentedTensor \<Rightarrow> 'v SegmentedTensor \<Rightarrow>
   (bool \<times> 'v Heap \<times> 'v SegmentedTensor) option" where
  "Add h t rhs =
     (if m_cDimensions t \<noteq> m_cDimensions rhs then None
      else if 0 = m_cDimensions t then
        (if \<not> 1 \<le> m_cValueCapacity t then None
         else
           (case add_zero (m_cVectorLength t) 0 (m_aValues t) (m_aValues rhs) of
              None \<Rightarrow> None
            | Some aValues' \<Rightarrow> Some (False, h, t\<lparr>m_aValues := aValues'\<rparr>)))
      else if length (m_aDimensions t) < m_cDimensions t \<or> length (m_aDimensions rhs) < m_cDimensions t
      then None
      else
        (case add_first (take (m_cDimensions t) (m_aDimensions t))
                (take (m_cDimensions t) (m_aDimensions rhs)) 1 1 1 of
           None \<Rightarrow> None
         | Some (cValues1, cValues2, cNewValues, dimensionStack) \<Rightarrow>
             if IsMultiplyError cNewValues (m_cVectorLength t) then Some (True, h, t)
             else
               (case EnsureValueCapacity h (cNewValues * m_cVectorLength t) t of
                  None \<Rightarrow> None
                | Some (True, h1, t1) \<Rightarrow> Some (True, h1, t1)
                | Some (False, h1, t1) \<Rightarrow>
                    (case add_loop (m_cVectorLength t1) (m_aDimensions t1) (m_aDimensions rhs) dimensionStack
                            (sz (m_cVectorLength t1 * cValues1)) (sz (m_cVectorLength t1 * cValues2))
                            (m_cVectorLength t1 * cNewValues) (m_aValues t1) (m_aValues rhs) of
                       None \<Rightarrow> None
                     | Some (dimensionStack', pValue1, pValue2, aValues') \<Rightarrow>
                         if pValue1 \<noteq> m_cVectorLength t1 \<or> pValue2 \<noteq> m_cVectorLength t1 then None
                         else
                           add_divisions [0..<m_cDimensions t1] dimensionStack' (m_aDimensions rhs) h1
                             (t1\<lparr>m_aValues := aValues'\<rparr>)))))"

subsection \<open>IsEqual\<close>

text \<open>
  The two \<open>do\<close> loops of \<open>IsEqual\<close> (lines 792 to 798 and 805 to 811) compare two arrays
  cell by cell from \<open>pCur\<close> up to \<open>pEnd\<close> with the operator \<open>!=\<close> of their cells; both are
  instances of \<open>isequal_loop\<close>, whose first argument \<open>ne\<close> is that operator. The divisions
  are integers, whose \<open>!=\<close> is inequality. The scores are of the type \<open>TValues\<close> of the
  template, whose \<open>!=\<close> is an argument of \<open>IsEqual\<close>: for a floating-point type it is not
  inequality, as a NaN differs from every value, itself included.
\<close>

function isequal_loop :: "('a \<Rightarrow> 'a \<Rightarrow> bool) \<Rightarrow> 'a list \<Rightarrow> 'a list \<Rightarrow> nat \<Rightarrow> nat \<Rightarrow> bool option" where
  "isequal_loop ne a1 a2 pCur pEnd =
     (if \<not> pCur < length a1 \<or> \<not> pCur < length a2 then None
      else if ne (a1 ! pCur) (a2 ! pCur) then Some False
      else if pEnd \<noteq> pCur + 1 then isequal_loop ne a1 a2 (pCur + 1) pEnd
      else Some True)"
  by pat_completeness auto
termination
  by (relation "measure (\<lambda>(ne, a1, a2, p, e). length a1 - p)") auto

declare isequal_loop.simps [simp del]

text \<open>
  The loop of \<open>IsEqual\<close> over the dimensions: \<open>Some (Some cValues)\<close> when every dimension
  agrees, \<open>Some None\<close> when the function returns \<open>false\<close>.
\<close>

fun isequal_dimensions :: "DimensionInfo list \<Rightarrow> DimensionInfo list \<Rightarrow> nat \<Rightarrow> (nat option) option" where
  "isequal_dimensions [] ds2 cValues = Some (Some cValues)"
| "isequal_dimensions (pDimension1 # ds1) [] cValues = None"
| "isequal_dimensions (pDimension1 # ds1) (pDimension2 # ds2) cValues =
     (let cDivisions = m_cDivisions pDimension1 in
      if cDivisions \<noteq> m_cDivisions pDimension2 then Some None
      else if 0 \<noteq> cDivisions then
        (if IsMultiplyError cValues (cDivisions + 1) then None
         else
           (case isequal_loop (\<lambda>d1 d2. d1 \<noteq> d2) (m_aDivisions pDimension1) (m_aDivisions pDimension2)
                   0 cDivisions of
              None \<Rightarrow> None
            | Some False \<Rightarrow> Some None
            | Some True \<Rightarrow> isequal_dimensions ds1 ds2 (cValues * (cDivisions + 1))))
      else isequal_dimensions ds1 ds2 cValues)"

definition IsEqual ::
  "('v \<Rightarrow> 'v \<Rightarrow> bool) \<Rightarrow> 'v SegmentedTensor \<Rightarrow> 'v SegmentedTensor \<Rightarrow> bool option" where
  "IsEqual ne t rhs =
     (if m_cDimensions t \<noteq> m_cDimensions rhs then Some False
      else if length (m_aDimensions t) < m_cDimensions t \<or> length (m_aDimensions rhs) < m_cDimensions t
      then None
      else
        (case isequal_dimensions (take (m_cDimensions t) (m_aDimensions t))
                (take (m_cDimensions t) (m_aDimensions rhs)) (m_cVectorLength t) of
           None \<Rightarrow> None
         | Some None \<Rightarrow> Some False
         | Some (Some cValues) \<Rightarrow> isequal_loop ne (m_aValues t) (m_aValues rhs) 0 cValues))"

section \<open>Views and well-formedness\<close>

text \<open>The divisions in use and the meaningful scores of a tensor.\<close>

definition divisions_of :: "'v SegmentedTensor \<Rightarrow> nat \<Rightarrow> nat list" where
  "divisions_of t i = take (m_cDivisions (m_aDimensions t ! i)) (m_aDivisions (m_aDimensions t ! i))"

definition count_values :: "'v SegmentedTensor \<Rightarrow> nat" where
  "count_values t =
     m_cVectorLength t * prod_list (map (\<lambda>d. m_cDivisions d + 1) (take (m_cDimensions t) (m_aDimensions t)))"

definition values_of :: "'v SegmentedTensor \<Rightarrow> 'v list" where
  "values_of t = take (count_values t) (m_aValues t)"

text \<open>
  A dimension is well formed when its division count is within the capacity, the
  capacity is the size of the allocated array and the array fits the address space; a tensor is well formed when its score
  vectors are not empty, its active dimensions are allocated and well formed, and the
  meaningful scores fit the allocated array, whose size is a \<open>size_t\<close>.
\<close>

definition wf_dimension :: "DimensionInfo \<Rightarrow> bool" where
  "wf_dimension d =
     (m_cDivisions d \<le> m_cDivisionCapacity d \<and> length (m_aDivisions d) = m_cDivisionCapacity d
      \<and> \<not> IsMultiplyError sizeof_TDivisions (m_cDivisionCapacity d))"

definition wf_tensor :: "'v SegmentedTensor \<Rightarrow> bool" where
  "wf_tensor t =
     (1 \<le> m_cVectorLength t
      \<and> m_cDimensions t \<le> length (m_aDimensions t)
      \<and> list_all wf_dimension (take (m_cDimensions t) (m_aDimensions t))
      \<and> count_values t \<le> m_cValueCapacity t
      \<and> length (m_aValues t) = m_cValueCapacity t
      \<and> m_cValueCapacity t \<le> size_max)"

text \<open>What \<open>IsEqual\<close> reads of two tensors.\<close>

definition same_divisions :: "DimensionInfo \<Rightarrow> DimensionInfo \<Rightarrow> bool" where
  "same_divisions d1 d2 =
     (m_cDivisions d1 = m_cDivisions d2
      \<and> take (m_cDivisions d1) (m_aDivisions d1) = take (m_cDivisions d2) (m_aDivisions d2))"

definition same_content :: "'v SegmentedTensor \<Rightarrow> 'v SegmentedTensor \<Rightarrow> bool" where
  "same_content t rhs =
     (m_cDimensions t = m_cDimensions rhs
      \<and> list_all2 same_divisions (take (m_cDimensions t) (m_aDimensions t))
            (take (m_cDimensions t) (m_aDimensions rhs))
      \<and> values_of t = values_of rhs)"

text \<open>The number of cells of a list of dimensions.\<close>

definition segments :: "DimensionInfo list \<Rightarrow> nat" where
  "segments ds = prod_list (map (\<lambda>d. m_cDivisions d + 1) ds)"

text \<open>The divisions in use are strictly increasing in every active dimension.\<close>

definition increasing_divisions :: "'v SegmentedTensor \<Rightarrow> bool" where
  "increasing_divisions t =
     list_all (\<lambda>d. sorted_wrt (<) (take (m_cDivisions d) (m_aDivisions d)))
       (take (m_cDimensions t) (m_aDimensions t))"

text \<open>
  The number of distinct division points among the first \<open>q1\<close> cells of one division
  array and the first \<open>q2\<close> cells of another.
\<close>

definition merged :: "nat list \<Rightarrow> nat \<Rightarrow> nat list \<Rightarrow> nat \<Rightarrow> nat" where
  "merged a1 q1 a2 q2 = card (set (take q1 a1) \<union> set (take q2 a2))"

text \<open>
  A dimension whose divisions in use are strictly increasing; the number of divisions of
  the union of two dimensions; the stack entry the first loop of \<open>Add\<close> makes for a pair
  of dimensions; the number of cells of the union grid; and what the last loop of \<open>Add\<close>
  establishes for a dimension \<open>d'\<close> of the result, from the dimensions \<open>d1\<close> and \<open>d2\<close>
  of the operands.
\<close>

definition dim_ok :: "DimensionInfo \<Rightarrow> bool" where
  "dim_ok d = (wf_dimension d \<and> sorted_wrt (<) (take (m_cDivisions d) (m_aDivisions d)))"

definition union_count :: "DimensionInfo \<Rightarrow> DimensionInfo \<Rightarrow> nat" where
  "union_count d1 d2 = merged (m_aDivisions d1) (m_cDivisions d1) (m_aDivisions d2) (m_cDivisions d2)"

definition full_entry :: "DimensionInfo \<Rightarrow> DimensionInfo \<Rightarrow> DimensionInfoStack" where
  "full_entry d1 d2 =
     \<lparr>m_pDivision1 = m_cDivisions d1, m_pDivision2 = m_cDivisions d2,
      m_cNewDivisions = union_count d1 d2\<rparr>"

fun new_segments :: "DimensionInfo list \<Rightarrow> DimensionInfo list \<Rightarrow> nat" where
  "new_segments (d1 # ds1) (d2 # ds2) = (union_count d1 d2 + 1) * new_segments ds1 ds2"
| "new_segments ds1 ds2 = 1"

definition merge_done :: "DimensionInfo \<Rightarrow> DimensionInfo \<Rightarrow> DimensionInfo \<Rightarrow> bool" where
  "merge_done d' d1 d2 =
     (m_cDivisions d' = union_count d1 d2
      \<and> m_cDivisions d' \<le> length (m_aDivisions d')
      \<and> sorted_wrt (<) (take (m_cDivisions d') (m_aDivisions d'))
      \<and> set (take (m_cDivisions d') (m_aDivisions d'))
          = set (take (m_cDivisions d1) (m_aDivisions d1)) \<union> set (take (m_cDivisions d2) (m_aDivisions d2)))"

text \<open>
  The state of the loop of \<open>Add\<close> over the cells, dimension by dimension: a stack entry
  with the two dimensions it belongs to. \<open>entry_ok\<close>: the cursors are within the division
  counts. \<open>rank1\<close>, \<open>rank2\<close> and \<open>rankT\<close> weigh the cursors into this tensor, into \<open>rhs\<close>
  and into the union grid by the sizes of the dimensions before them: they are the
  distances of \<open>pValue1\<close>, \<open>pValue2\<close> and \<open>pValueTop\<close> from the end of the first score
  vector. \<open>swap_entry\<close> exchanges the two cursors of a stack entry.
\<close>

definition entry_ok :: "DimensionInfoStack \<times> DimensionInfo \<times> DimensionInfo \<Rightarrow> bool" where
  "entry_ok z =
     (case z of (s, d1, d2) \<Rightarrow>
        m_pDivision1 s \<le> m_cDivisions d1 \<and> m_pDivision2 s \<le> m_cDivisions d2
        \<and> dim_ok d1 \<and> dim_ok d2)"

fun rank1 :: "nat \<Rightarrow> (DimensionInfoStack \<times> DimensionInfo \<times> DimensionInfo) list \<Rightarrow> nat" where
  "rank1 m [] = 0"
| "rank1 m ((s, d1, d2) # zs) = m_pDivision1 s * m + rank1 (m * (m_cDivisions d1 + 1)) zs"

fun rank2 :: "nat \<Rightarrow> (DimensionInfoStack \<times> DimensionInfo \<times> DimensionInfo) list \<Rightarrow> nat" where
  "rank2 m [] = 0"
| "rank2 m ((s, d1, d2) # zs) = m_pDivision2 s * m + rank2 (m * (m_cDivisions d2 + 1)) zs"

fun rankT :: "nat \<Rightarrow> (DimensionInfoStack \<times> DimensionInfo \<times> DimensionInfo) list \<Rightarrow> nat" where
  "rankT m [] = 0"
| "rankT m ((s, d1, d2) # zs) =
     merged (m_aDivisions d1) (m_pDivision1 s) (m_aDivisions d2) (m_pDivision2 s) * m
       + rankT (m * (union_count d1 d2 + 1)) zs"

definition swap_entry :: "DimensionInfoStack \<Rightarrow> DimensionInfoStack" where
  "swap_entry s = s\<lparr>m_pDivision1 := m_pDivision2 s, m_pDivision2 := m_pDivision1 s\<rparr>"

section \<open>The round orchestrator\<close>

text \<open>
  \<open>GenerateTermUpdate\<close> works on doubles, on the booster behind its handle and through
  collaborators that are not among the sources. The model is polymorphic in the type of
  doubles: their product, quotient, order and zero are those of the type, and the
  constants and tests the function uses are handed to it (\<open>Doubles\<close>). The error codes
  are the four the specification lists.
\<close>

datatype ErrorEbm = Error_None | Error_OutOfMemory | Error_UnexpectedInternal | Error_IllegalParamVal

text \<open>The four flags the function knows; other bits are logged and ignored.\<close>

record TermBoostFlags =
  TermBoostFlags_DisableNewtonGain :: bool
  TermBoostFlags_DisableNewtonUpdate :: bool
  TermBoostFlags_GradientSums :: bool
  TermBoostFlags_RandomSplits :: bool

text \<open>
  \<open>std::numeric_limits<double>::max()\<close>, the literal \<open>0.5\<close>, the sentinel
  \<open>k_illegalGainDouble\<close>, the conversion of a \<open>size_t\<close>, \<open>std::isnan\<close> and \<open>std::isinf\<close>.
\<close>

record 'd Doubles =
  numeric_limits_max :: 'd
  one_half :: 'd
  k_illegalGainDouble :: 'd
  of_size_t :: "nat \<Rightarrow> 'd"
  std_isnan :: "'d \<Rightarrow> bool"
  std_isinf :: "'d \<Rightarrow> bool"

text \<open>
  What the function reads of a term (\<open>GetCountTensorBins\<close>, \<open>GetCountDimensions\<close>,
  \<open>GetCountRealDimensions\<close>) and of the booster core (\<open>GetCountTerms\<close> is the length of
  \<open>m_apTerms\<close>; \<open>m_cSamples\<close> is the sample count of the training set).
\<close>

record Term =
  m_cTensorBins :: nat
  m_cDimensionsTerm :: nat
  m_cRealDimensions :: nat

record 'd BoosterCore =
  m_apTerms :: "Term list"
  m_cScores :: nat
  m_cInnerBags :: nat
  m_cSamples :: nat
  GradientConstant :: 'd
  HessianConstant :: 'd
  LearningRateAdjustmentDifferentialPrivacy :: 'd
  LearningRateAdjustmentGradientBoosting :: 'd
  LearningRateAdjustmentHessianBoosting :: 'd
  GainAdjustmentGradientBoosting :: 'd
  GainAdjustmentHessianBoosting :: 'd

text \<open>
  The shell: the term index (\<open>None\<close> is \<open>k_illegalTermIndex\<close>), the round update tensor
  and the inner update tensor. The tensors are segmented tensors as above.
\<close>

record 'd BoosterShell =
  m_pBoosterCore :: "'d BoosterCore"
  m_iTerm :: "nat option"
  m_pTermUpdate :: "'d SegmentedTensor"
  m_pInnerTermUpdate :: "'d SegmentedTensor"

text \<open>
  The collaborators. \<open>seed_outcome\<close> is what constructing and calling
  \<open>RandomNondeterministic\<close> does when the caller gave no generator. \<open>bag_work\<close> is the
  body of the loop over the inner bags, lines 753 to 956, for bag \<open>iBag\<close>: the bin sums, the
  conversion, the boosting dispatch, the accumulation of the gain with \<open>gainMultiple\<close> into
  \<open>gainAvg\<close> and the \<open>Add\<close> of the inner update into the round update. It yields the
  error code of the first call that failed (or \<open>Error_None\<close>), the new \<open>gainAvg\<close> and the
  shell. The parameters \<open>minSamplesLeaf\<close>, \<open>minHessian\<close>, \<open>leavesMax\<close> and \<open>direction\<close>
  reach the collaborators only and are part of \<open>bag_work\<close>.
\<close>

datatype SeedOutcome = Seeded | Seed_bad_alloc | Seed_other_exception

record 'd Collaborators =
  seed_outcome :: SeedOutcome
  bag_work :: "nat \<Rightarrow> 'd \<Rightarrow> 'd \<Rightarrow> 'd BoosterShell \<Rightarrow> ErrorEbm \<times> 'd \<times> 'd BoosterShell"

text \<open>
  Modelled from the spec: \<open>MultiplyAndCheckForIssues\<close> belongs to the tensor class, whose
  file with this function is not among the sources. Section 4.2 of the specification:
  it multiplies every meaningful score by the scalar \<open>v\<close> and returns true iff any
  resulting score is NaN or an infinity.
\<close>

definition MultiplyAndCheckForIssues ::
  "'d::times Doubles \<Rightarrow> 'd \<Rightarrow> 'd SegmentedTensor \<Rightarrow> (bool \<times> 'd SegmentedTensor) option" where
  "MultiplyAndCheckForIssues c v t =
     (if length (m_aDimensions t) < m_cDimensions t \<or> length (m_aValues t) < count_values t then None
      else
        let scaled = map (\<lambda>x. x * v) (values_of t) in
        Some (list_ex (\<lambda>x. std_isnan c x \<or> std_isinf c x) scaled,
              t\<lparr>m_aValues := scaled @ drop (count_values t) (m_aValues t)\<rparr>))"

text \<open>\<open>SetCountDimensions\<close> followed by \<open>Reset\<close>, as in lines 659, 716 and 1021.\<close>

definition SetCountDimensions_Reset :: "nat \<Rightarrow> 'd::zero SegmentedTensor \<Rightarrow> 'd SegmentedTensor option" where
  "SetCountDimensions_Reset cDimensions t =
     (case SetCountDimensions cDimensions t of
        None \<Rightarrow> None
      | Some t1 \<Rightarrow> Reset t1)"

text \<open>
  The loop over the inner bags (lines 750 to 959), over the bag indices: it stops at the
  first bag whose work fails.
\<close>

fun inner_bags ::
  "(nat \<Rightarrow> 'd \<Rightarrow> 'd BoosterShell \<Rightarrow> ErrorEbm \<times> 'd \<times> 'd BoosterShell) \<Rightarrow> nat list \<Rightarrow> 'd \<Rightarrow>
   'd BoosterShell \<Rightarrow> ErrorEbm \<times> 'd \<times> 'd BoosterShell" where
  "inner_bags work [] gainAvg pBoosterShell = (Error_None, gainAvg, pBoosterShell)"
| "inner_bags work (iBag # rest) gainAvg pBoosterShell =
     (case work iBag gainAvg pBoosterShell of
        (error, gainAvg', pBoosterShell') \<Rightarrow>
          if Error_None \<noteq> error then (error, gainAvg', pBoosterShell')
          else inner_bags work rest gainAvg' pBoosterShell')"

text \<open>
  Lines 497 to 959 of \<open>GenerateTermUpdate\<close>: the validation, the early exits, the
  multipliers and the loop over the inner bags. \<open>Inl\<close> is a return from within these lines
  (the error code, the shell and the cell behind \<open>avgGainOut\<close>); \<open>Inr\<close> is the state in
  which the run goes on to line 961 (with the multiplier, when there are samples) or to
  line 1029.
\<close>

definition GenerateTermUpdate_boost ::
  "'d::{zero,times,inverse,ord} Doubles \<Rightarrow> 'd Collaborators \<Rightarrow> bool \<Rightarrow> 'd BoosterShell option \<Rightarrow> int \<Rightarrow>
   TermBoostFlags \<Rightarrow> 'd \<Rightarrow> 'd option \<Rightarrow>
   ((ErrorEbm \<times> 'd BoosterShell option \<times> 'd option)
    + (nat \<times> nat \<times> nat \<times> 'd option \<times> 'd \<times> 'd BoosterShell \<times> 'd option)) option" where
  "GenerateTermUpdate_boost c ext rng boosterHandle indexTerm flags learningRate avgGainOut =
     (let avgGainOut = map_option (\<lambda>old. k_illegalGainDouble c) avgGainOut in
      (case boosterHandle of
         None \<Rightarrow> Some (Inl (Error_IllegalParamVal, None, avgGainOut))
       | Some pBoosterShell \<Rightarrow>
           let pBoosterShell = pBoosterShell\<lparr>m_iTerm := None\<rparr> in
           if indexTerm < 0 then Some (Inl (Error_IllegalParamVal, Some pBoosterShell, avgGainOut))
           else
             let pBoosterCore = m_pBoosterCore pBoosterShell in
             if int (length (m_apTerms pBoosterCore)) \<le> indexTerm
             then Some (Inl (Error_IllegalParamVal, Some pBoosterShell, avgGainOut))
             else
               let iTerm = nat indexTerm;
                   pTerm = m_apTerms pBoosterCore ! iTerm;
                   cScores = m_cScores pBoosterCore in
               if 0 = cScores
               then Some (Inl (Error_None, Some (pBoosterShell\<lparr>m_iTerm := Some iTerm\<rparr>),
                               map_option (\<lambda>old. 0) avgGainOut))
               else if 0 = m_cTensorBins pTerm
               then Some (Inl (Error_None, Some (pBoosterShell\<lparr>m_iTerm := Some iTerm\<rparr>),
                               map_option (\<lambda>old. 0) avgGainOut))
               else
                 let cInnerBagsAfterZero =
                       (if 0 = m_cInnerBags pBoosterCore then 1 else m_cInnerBags pBoosterCore);
                     cDimensions = m_cDimensionsTerm pTerm in
                 (case SetCountDimensions_Reset cDimensions (m_pTermUpdate pBoosterShell) of
                    None \<Rightarrow> None
                  | Some update \<Rightarrow>
                      let pBoosterShell = pBoosterShell\<lparr>m_pTermUpdate := update\<rparr>;
                          gainAvg = 0 in
                      if 0 \<noteq> m_cSamples pBoosterCore then
                        let gradientConstant = GradientConstant pBoosterCore;
                            multipleCommon = gradientConstant / of_size_t c cInnerBagsAfterZero;
                            multiple =
                              (if TermBoostFlags_GradientSums flags
                               then multipleCommon * LearningRateAdjustmentDifferentialPrivacy pBoosterCore
                               else if TermBoostFlags_DisableNewtonUpdate flags
                               then multipleCommon * LearningRateAdjustmentGradientBoosting pBoosterCore
                               else multipleCommon / HessianConstant pBoosterCore
                                      * LearningRateAdjustmentHessianBoosting pBoosterCore);
                            gainMultiple =
                              (if TermBoostFlags_DisableNewtonGain flags
                               then multipleCommon * GainAdjustmentGradientBoosting pBoosterCore
                               else multipleCommon / HessianConstant pBoosterCore
                                      * GainAdjustmentHessianBoosting pBoosterCore);
                            multiple = multiple * learningRate;
                            gainMultiple = gainMultiple * gradientConstant in
                        if \<not> rng \<and> seed_outcome ext = Seed_bad_alloc
                        then Some (Inl (Error_OutOfMemory, Some pBoosterShell, avgGainOut))
                        else if \<not> rng \<and> seed_outcome ext = Seed_other_exception
                        then Some (Inl (Error_UnexpectedInternal, Some pBoosterShell, avgGainOut))
                        else
                          (case SetCountDimensions_Reset cDimensions (m_pInnerTermUpdate pBoosterShell) of
                             None \<Rightarrow> None
                           | Some inner \<Rightarrow>
                               (case inner_bags (\<lambda>iBag. bag_work ext iBag gainMultiple)
                                       [0..<cInnerBagsAfterZero] gainAvg
                                       (pBoosterShell\<lparr>m_pInnerTermUpdate := inner\<rparr>) of
                                  (error, gainAvg, pBoosterShell) \<Rightarrow>
                                    if Error_None \<noteq> error
                                    then Some (Inl (error, Some pBoosterShell, avgGainOut))
                                    else Some (Inr (iTerm, cScores, cDimensions, Some multiple, gainAvg,
                                                    pBoosterShell, avgGainOut))))
                      else
                        Some (Inr (iTerm, cScores, cDimensions, None, gainAvg, pBoosterShell, avgGainOut)))))"

text \<open>
  Lines 961 to 1026: the gain that overflowed becomes the sentinel, the round update is
  scaled, and an update with a score that is not finite is reset.
\<close>

definition GenerateTermUpdate_scale ::
  "'d::{zero,times,ord} Doubles \<Rightarrow> nat \<Rightarrow> nat \<Rightarrow> 'd \<Rightarrow> 'd \<Rightarrow> 'd BoosterShell \<Rightarrow>
   ('d \<times> 'd BoosterShell) option" where
  "GenerateTermUpdate_scale c cScores cDimensions multiple gainAvg pBoosterShell =
     (let gainAvg = (if \<not> gainAvg \<le> numeric_limits_max c then k_illegalGainDouble c else gainAvg) in
      (case (if 2 = cScores
             then MultiplyAndCheckForIssues c (multiple * one_half c) (m_pTermUpdate pBoosterShell)
             else MultiplyAndCheckForIssues c multiple (m_pTermUpdate pBoosterShell)) of
         None \<Rightarrow> None
       | Some (bBad, update) \<Rightarrow>
           if bBad then
             (case SetCountDimensions_Reset cDimensions update of
                None \<Rightarrow> None
              | Some update' \<Rightarrow>
                  Some (k_illegalGainDouble c, pBoosterShell\<lparr>m_pTermUpdate := update'\<rparr>))
           else Some (gainAvg, pBoosterShell\<lparr>m_pTermUpdate := update\<rparr>)))"

text \<open>
  \<open>GenerateTermUpdate\<close>: the lines above, then lines 1029 to 1046, which record the term
  index, write the gain through \<open>avgGainOut\<close> and return \<open>Error_None\<close>. The result is the
  error code, the shell behind the handle and the cell behind \<open>avgGainOut\<close> (\<open>None\<close> for a
  null pointer).
\<close>

definition GenerateTermUpdate ::
  "'d::{zero,times,inverse,ord} Doubles \<Rightarrow> 'd Collaborators \<Rightarrow> bool \<Rightarrow> 'd BoosterShell option \<Rightarrow> int \<Rightarrow>
   TermBoostFlags \<Rightarrow> 'd \<Rightarrow> 'd option \<Rightarrow>
   (ErrorEbm \<times> 'd BoosterShell option \<times> 'd option) option" where
  "GenerateTermUpdate c ext rng boosterHandle indexTerm flags learningRate avgGainOut =
     (case GenerateTermUpdate_boost c ext rng boosterHandle indexTerm flags learningRate avgGainOut of
        None \<Rightarrow> None
      | Some (Inl returned) \<Rightarrow> Some returned
      | Some (Inr (iTerm, cScores, cDimensions, multiple, gainAvg, pBoosterShell, avgGainOut)) \<Rightarrow>
          (case (case multiple of
                   None \<Rightarrow> Some (gainAvg, pBoosterShell)
                 | Some multiple \<Rightarrow>
                     GenerateTermUpdate_scale c cScores cDimensions multiple gainAvg pBoosterShell) of
             None \<Rightarrow> None
           | Some (gainAvg, pBoosterShell) \<Rightarrow>
               Some (Error_None, Some (pBoosterShell\<lparr>m_iTerm := Some iTerm\<rparr>),
                     map_option (\<lambda>old. gainAvg) avgGainOut)))"

text \<open>The final multiplier of the scaling: halved exactly when there are two scores.\<close>

definition final_multiple :: "'d::times Doubles \<Rightarrow> nat \<Rightarrow> 'd \<Rightarrow> 'd" where
  "final_multiple c cScores multiple = (if 2 = cScores then multiple * one_half c else multiple)"

section \<open>The scenarios of the specification\<close>

text \<open>
  Scenario C: one dimension, score vectors of length 1, one division at 1, the scores 7
  and 9; the capacities are those \<open>Allocate\<close> gives.
\<close>

definition scenario_C :: "real SegmentedTensor" where
  "scenario_C =
     \<lparr>m_cValueCapacity = 2, m_cVectorLength = 1, m_cDimensionsMax = 1, m_cDimensions = 1,
      m_aValues = [7, 9], m_bExpanded = False,
      m_aDimensions = [\<lparr>m_cDivisions = 1, m_aDivisions = [1], m_cDivisionCapacity = 1\<rparr>]\<rparr>"

text \<open>
  Scenario D: two dimensions, score vectors of length 1. \<open>A\<close> has the division 1 in
  dimension 0 and none in dimension 1; \<open>B\<close> has none in dimension 0 and the division 3 in
  dimension 1. The cell of a division array beyond the division count is allocated and holds
  an arbitrary number (here 0).
\<close>

definition scenario_D_A :: "real SegmentedTensor" where
  "scenario_D_A =
     \<lparr>m_cValueCapacity = 2, m_cVectorLength = 1, m_cDimensionsMax = 2, m_cDimensions = 2,
      m_aValues = [1, 2], m_bExpanded = False,
      m_aDimensions = [\<lparr>m_cDivisions = 1, m_aDivisions = [1], m_cDivisionCapacity = 1\<rparr>,
                       \<lparr>m_cDivisions = 0, m_aDivisions = [0], m_cDivisionCapacity = 1\<rparr>]\<rparr>"

definition scenario_D_B :: "real SegmentedTensor" where
  "scenario_D_B =
     \<lparr>m_cValueCapacity = 2, m_cVectorLength = 1, m_cDimensionsMax = 2, m_cDimensions = 2,
      m_aValues = [10, 20], m_bExpanded = False,
      m_aDimensions = [\<lparr>m_cDivisions = 0, m_aDivisions = [0], m_cDivisionCapacity = 1\<rparr>,
                       \<lparr>m_cDivisions = 1, m_aDivisions = [3], m_cDivisionCapacity = 1\<rparr>]\<rparr>"

text \<open>An allocator that grants the next three requests, with zeroes in fresh memory.\<close>

definition heap_ok :: "real Heap" where
  "heap_ok = \<lparr>h_outcomes = [True, True, True], h_fresh_div = (\<lambda>i. 0), h_fresh_val = (\<lambda>i. 0)\<rparr>"

section \<open>Doubles for the concrete runs\<close>

text \<open>
  A double for the concrete runs below: a finite value (a real number; rounding is not
  modelled, and the runs below only multiply and divide by 1 and by powers of two), an
  infinity or a NaN. Comparisons with a NaN are false.
\<close>

datatype dbl = Finite real | PlusInf | MinusInf | NaN

fun dbl_sign :: "dbl \<Rightarrow> int" where
  "dbl_sign (Finite x) = (if 0 < x then 1 else if x < 0 then -1 else 0)"
| "dbl_sign PlusInf = 1"
| "dbl_sign MinusInf = -1"
| "dbl_sign NaN = 0"

fun dbl_times :: "dbl \<Rightarrow> dbl \<Rightarrow> dbl" where
  "dbl_times NaN y = NaN"
| "dbl_times x NaN = NaN"
| "dbl_times (Finite x) (Finite y) = Finite (x * y)"
| "dbl_times x y =
     (if dbl_sign x * dbl_sign y = 0 then NaN
      else if 0 < dbl_sign x * dbl_sign y then PlusInf else MinusInf)"

fun dbl_divide :: "dbl \<Rightarrow> dbl \<Rightarrow> dbl" where
  "dbl_divide NaN y = NaN"
| "dbl_divide x NaN = NaN"
| "dbl_divide (Finite x) (Finite y) =
     (if y \<noteq> 0 then Finite (x / y)
      else if x = 0 then NaN else if 0 < x then PlusInf else MinusInf)"
| "dbl_divide (Finite x) y = Finite 0"
| "dbl_divide x (Finite y) = (if 0 < dbl_sign x * (if y < 0 then -1 else 1) then PlusInf else MinusInf)"
| "dbl_divide x y = NaN"

fun dbl_less_eq :: "dbl \<Rightarrow> dbl \<Rightarrow> bool" where
  "dbl_less_eq NaN y = False"
| "dbl_less_eq x NaN = False"
| "dbl_less_eq (Finite x) (Finite y) = (x \<le> y)"
| "dbl_less_eq MinusInf y = True"
| "dbl_less_eq x PlusInf = True"
| "dbl_less_eq x y = False"

instantiation dbl :: "{zero, times, inverse, ord}"
begin

definition zero_dbl :: dbl where
  "zero_dbl = Finite 0"

definition times_dbl :: "dbl \<Rightarrow> dbl \<Rightarrow> dbl" where
  "times_dbl x y = dbl_times x y"

definition divide_dbl :: "dbl \<Rightarrow> dbl \<Rightarrow> dbl" where
  "divide_dbl x y = dbl_divide x y"

definition inverse_dbl :: "dbl \<Rightarrow> dbl" where
  "inverse_dbl x = dbl_divide (Finite 1) x"

definition less_eq_dbl :: "dbl \<Rightarrow> dbl \<Rightarrow> bool" where
  "less_eq_dbl x y = dbl_less_eq x y"

definition less_dbl :: "dbl \<Rightarrow> dbl \<Rightarrow> bool" where
  "less_dbl x y = (dbl_less_eq x y \<and> x \<noteq> y)"

instance ..

end

text \<open>
  The operator \<open>!=\<close> of a double: a NaN differs from every double, itself included.
\<close>

definition dbl_ne :: "dbl \<Rightarrow> dbl \<Rightarrow> bool" where
  "dbl_ne x y = (x = NaN \<or> y = NaN \<or> x \<noteq> y)"

text \<open>
  Two tensors of doubles with one dimension, the division 1 and the scores 7 and \<open>s\<close>, that
  differ in their capacities, unused cells and flag only.
\<close>

definition double_C :: "dbl \<Rightarrow> dbl SegmentedTensor" where
  "double_C s =
     \<lparr>m_cValueCapacity = 2, m_cVectorLength = 1, m_cDimensionsMax = 1, m_cDimensions = 1,
      m_aValues = [Finite 7, s], m_bExpanded = False,
      m_aDimensions = [\<lparr>m_cDivisions = 1, m_aDivisions = [1], m_cDivisionCapacity = 1\<rparr>]\<rparr>"

definition double_C_roomy :: "dbl \<Rightarrow> dbl SegmentedTensor" where
  "double_C_roomy s =
     \<lparr>m_cValueCapacity = 3, m_cVectorLength = 1, m_cDimensionsMax = 1, m_cDimensions = 1,
      m_aValues = [Finite 7, s, Finite 5], m_bExpanded = True,
      m_aDimensions = [\<lparr>m_cDivisions = 1, m_aDivisions = [1, 8], m_cDivisionCapacity = 2\<rparr>]\<rparr>"

text \<open>An allocator that grants the next three requests, with NaN in fresh memory.\<close>

definition double_heap :: "dbl Heap" where
  "double_heap = \<lparr>h_outcomes = [True, True, True], h_fresh_div = (\<lambda>i. 0), h_fresh_val = (\<lambda>i. NaN)\<rparr>"

text \<open>
  The constants of a 64-bit IEEE double; the sentinel is the lowest finite double, as the
  specification describes it (finite, of large magnitude).
\<close>

definition ieee :: "dbl Doubles" where
  "ieee =
     \<lparr>numeric_limits_max = Finite (2 ^ 1024 - 2 ^ 971),
      one_half = Finite (1 / 2),
      k_illegalGainDouble = Finite (- (2 ^ 1024 - 2 ^ 971)),
      of_size_t = (\<lambda>n. Finite (real n)),
      std_isnan = (\<lambda>x. x = NaN),
      std_isinf = (\<lambda>x. x = PlusInf \<or> x = MinusInf)\<rparr>"

text \<open>
  A booster with one term without dimensions, \<open>cScores\<close> scores per cell, one sample
  and all constants 1; the tensors of its shell hold one score vector.
\<close>

definition tensor0 :: "dbl list \<Rightarrow> dbl SegmentedTensor" where
  "tensor0 scores =
     \<lparr>m_cValueCapacity = length scores, m_cVectorLength = length scores, m_cDimensionsMax = 0,
      m_cDimensions = 0, m_aValues = scores, m_bExpanded = False, m_aDimensions = []\<rparr>"

definition core0 :: "nat \<Rightarrow> dbl BoosterCore" where
  "core0 cScores =
     \<lparr>m_apTerms = [\<lparr>m_cTensorBins = 1, m_cDimensionsTerm = 0, m_cRealDimensions = 0\<rparr>],
      m_cScores = cScores, m_cInnerBags = 0, m_cSamples = 1,
      GradientConstant = Finite 1, HessianConstant = Finite 1,
      LearningRateAdjustmentDifferentialPrivacy = Finite 1,
      LearningRateAdjustmentGradientBoosting = Finite 1,
      LearningRateAdjustmentHessianBoosting = Finite 1,
      GainAdjustmentGradientBoosting = Finite 1,
      GainAdjustmentHessianBoosting = Finite 1\<rparr>"

definition shell1 :: "dbl BoosterShell" where
  "shell1 =
     \<lparr>m_pBoosterCore = core0 1, m_iTerm = None,
      m_pTermUpdate = tensor0 [Finite 0], m_pInnerTermUpdate = tensor0 [Finite 0]\<rparr>"

definition shell2 :: "dbl BoosterShell" where
  "shell2 =
     \<lparr>m_pBoosterCore = core0 2, m_iTerm = None,
      m_pTermUpdate = tensor0 [Finite 0, Finite 0], m_pInnerTermUpdate = tensor0 [Finite 0, Finite 0]\<rparr>"

definition flags0 :: TermBoostFlags where
  "flags0 =
     \<lparr>TermBoostFlags_DisableNewtonGain = False, TermBoostFlags_DisableNewtonUpdate = False,
      TermBoostFlags_GradientSums = False, TermBoostFlags_RandomSplits = False\<rparr>"

text \<open>
  Collaborators whose work on a bag leaves the scores \<open>scores\<close> in the round update and
  the accumulated gain \<open>gain\<close>.
\<close>

definition collaborators :: "dbl list \<Rightarrow> dbl \<Rightarrow> dbl Collaborators" where
  "collaborators scores gain =
     \<lparr>seed_outcome = Seeded,
      bag_work = (\<lambda>iBag gainMultiple gainAvg pBoosterShell.
        (Error_None, gain, pBoosterShell\<lparr>m_pTermUpdate := tensor0 scores\<rparr>))\<rparr>"

section \<open>Evaluation of the models on concrete inputs\<close>

lemmas size_simps =
  IsMultiplyError_def IsAddError_def size_max_def sz_def sz_sub_def
  sizeof_TValues_def sizeof_TDivisions_def

lemmas alloc_simps =
  heap_request_def realloc_def EnsureValueCapacity_def SetCountDivisions_def

lemmas view_simps = divisions_of_def values_of_def count_values_def

section \<open>Expand on scenario C\<close>

text \<open>
  C1 (as amended). On the tensor of scenario C, every successful \<open>Expand([4])\<close>, whatever
  the allocator does, leaves the divisions \<open>[0, 1, 2]\<close>, the scores \<open>[7, 7, 9, 9]\<close> and
  the expanded flag set: a division is the last coordinate of the segment below it, so the
  segment with score 7 covers the coordinates 0 and 1.
\<close>

theorem expand_scenario_C:
  assumes "Expand h [4] scenario_C = Some (False, h', t')"
  shows "divisions_of t' 0 = [0, 1, 2] \<and> values_of t' = [7, 7, 9, 9] \<and> m_bExpanded t'"
  using assms
  by (auto simp add: Expand_def size_simps alloc_simps view_simps Let_def expand_copy.simps
      expand_loop.simps upt_rec scenario_C_def split: list.splits bool.splits if_splits)

theorem expand_scenario_C_witness:
  "\<exists>h' t'. Expand heap_ok [4] scenario_C = Some (False, h', t')
     \<and> divisions_of t' 0 = [0, 1, 2] \<and> values_of t' = [7, 7, 9, 9] \<and> m_bExpanded t'"
proof -
  have "\<exists>h' t'. Expand heap_ok [4] scenario_C = Some (False, h', t')"
    by (simp add: Expand_def size_simps alloc_simps Let_def expand_copy.simps
        expand_loop.simps upt_rec scenario_C_def heap_ok_def)
  then obtain h' t' where e: "Expand heap_ok [4] scenario_C = Some (False, h', t')"
    by blast
  from expand_scenario_C [OF e] e show ?thesis
    by blast
qed

text \<open>
  The claim as stated fails: the successful \<open>Expand([4])\<close> of scenario C does not leave the
  scores \<open>[7, 9, 9, 9]\<close>.
\<close>

theorem expand_scenario_C_counterexample:
  "\<exists>h' t'. Expand heap_ok [4] scenario_C = Some (False, h', t') \<and> values_of t' \<noteq> [7, 9, 9, 9]"
  by (simp add: Expand_def size_simps alloc_simps view_simps Let_def expand_copy.simps
      expand_loop.simps upt_rec scenario_C_def heap_ok_def)

section \<open>Add on scenario D\<close>

text \<open>
  C2 (as amended). On the tensors of scenario D, every successful \<open>A.Add(B)\<close> leaves the
  division 1 in dimension 0, the division 3 in dimension 1 and the scores
  \<open>[11, 12, 21, 22]\<close>: dimension 0 is the one that varies fastest in the flat storage.
\<close>

theorem add_scenario_D:
  assumes "Add h scenario_D_A scenario_D_B = Some (False, h', t')"
  shows "divisions_of t' 0 = [1] \<and> divisions_of t' 1 = [3] \<and> values_of t' = [11, 12, 21, 22]"
  using assms
  by (auto simp add: Add_def size_simps alloc_simps view_simps Let_def add_copy.simps
      add_loop.simps add_count.simps add_merge.simps upt_rec scenario_D_A_def scenario_D_B_def
      split: list.splits bool.splits if_splits)

theorem add_scenario_D_witness:
  "\<exists>h' t'. Add heap_ok scenario_D_A scenario_D_B = Some (False, h', t')
     \<and> divisions_of t' 0 = [1] \<and> divisions_of t' 1 = [3] \<and> values_of t' = [11, 12, 21, 22]"
proof -
  have "\<exists>h' t'. Add heap_ok scenario_D_A scenario_D_B = Some (False, h', t')"
    by (simp add: Add_def size_simps alloc_simps Let_def add_copy.simps
        add_loop.simps add_count.simps add_merge.simps upt_rec scenario_D_A_def scenario_D_B_def
        heap_ok_def)
  then obtain h' t' where e: "Add heap_ok scenario_D_A scenario_D_B = Some (False, h', t')"
    by blast
  from add_scenario_D [OF e] e show ?thesis
    by blast
qed

text \<open>
  The claim as stated fails: the successful \<open>A.Add(B)\<close> of scenario D does not leave the
  scores \<open>[11, 21, 12, 22]\<close>.
\<close>

theorem add_scenario_D_counterexample:
  "\<exists>h' t'. Add heap_ok scenario_D_A scenario_D_B = Some (False, h', t')
     \<and> values_of t' \<noteq> [11, 21, 12, 22]"
  by (simp add: Add_def size_simps alloc_simps view_simps Let_def add_copy.simps
      add_loop.simps add_count.simps add_merge.simps upt_rec scenario_D_A_def scenario_D_B_def
      heap_ok_def)

section \<open>SetCountDivisions\<close>

text \<open>
  C6. \<open>SetCountDivisions(i, K)\<close> on an unexpanded tensor, with \<open>K\<close> above the
  capacity of axis \<open>i\<close>: the call returns; when \<open>K + K/2\<close> or its size in bytes
  overflows, it fails; whenever it fails, the tensor is unchanged; when it succeeds, the
  division count is \<open>K\<close>, the capacity is \<open>K + K/2\<close>, and the old array is a prefix of the
  new one.
\<close>

theorem SetCountDivisions_growth:
  assumes "iDimension < m_cDimensions t"
    and "iDimension < length (m_aDimensions t)"
    and "\<not> m_bExpanded t"
    and "length (m_aDivisions (m_aDimensions t ! iDimension)) = m_cDivisionCapacity (m_aDimensions t ! iDimension)"
    and "m_cDivisionCapacity (m_aDimensions t ! iDimension) < cDivisions"
  shows "\<exists>failed h' t'. SetCountDivisions h iDimension cDivisions t = Some (failed, h', t')
     \<and> (IsAddError cDivisions (cDivisions div 2)
          \<or> IsMultiplyError sizeof_TDivisions (cDivisions + cDivisions div 2) \<longrightarrow> failed)
     \<and> (failed \<longrightarrow> t' = t)
     \<and> (\<not> failed \<longrightarrow>
           m_cDivisions (m_aDimensions t' ! iDimension) = cDivisions
         \<and> m_cDivisionCapacity (m_aDimensions t' ! iDimension) = cDivisions + cDivisions div 2
         \<and> length (m_aDivisions (m_aDimensions t' ! iDimension)) = cDivisions + cDivisions div 2
         \<and> take (m_cDivisionCapacity (m_aDimensions t ! iDimension)) (m_aDivisions (m_aDimensions t' ! iDimension))
             = m_aDivisions (m_aDimensions t ! iDimension))"
proof -
  let ?d = "m_aDimensions t ! iDimension"
  have keep: "take (length xs) (realloc xs n f) = xs" if "length xs \<le> n" for xs :: "nat list" and n f
    using that by (auto simp add: realloc_def list_eq_iff_nth_eq)
  have len: "length (realloc xs n f) = n" for xs :: "nat list" and n f
    by (simp add: realloc_def)
  show ?thesis
  proof (cases "IsAddError cDivisions (cDivisions div 2)
          \<or> IsMultiplyError sizeof_TDivisions (cDivisions + cDivisions div 2)")
    case True
    then show ?thesis using assms by (auto simp add: SetCountDivisions_def Let_def)
  next
    case False
    obtain b h1 where r: "heap_request h = (b, h1)" by (cases "heap_request h")
    show ?thesis
    proof (cases b)
      case True
      have "length (m_aDivisions ?d) \<le> cDivisions + cDivisions div 2" using assms by simp
      from keep [OF this] show ?thesis
        using assms False r True by (auto simp add: SetCountDivisions_def Let_def len)
    next
      case f: False
      then show ?thesis using assms False r by (auto simp add: SetCountDivisions_def Let_def)
    qed
  qed
qed

theorem SetCountDivisions_growth_witness:
  "\<exists>h' t'. SetCountDivisions heap_ok 0 3 scenario_C = Some (False, h', t')
     \<and> m_cDivisions (m_aDimensions t' ! 0) = 3
     \<and> m_cDivisionCapacity (m_aDimensions t' ! 0) = 4
     \<and> take 1 (m_aDivisions (m_aDimensions t' ! 0)) = [1]"
proof -
  have nf: "SetCountDivisions heap_ok 0 3 scenario_C \<noteq> Some (True, h', t')" for h' t'
    by (simp add: SetCountDivisions_def size_simps heap_request_def Let_def scenario_C_def heap_ok_def)
  from SetCountDivisions_growth [of 0 scenario_C 3 heap_ok]
  obtain failed h' t' where
    "SetCountDivisions heap_ok 0 3 scenario_C = Some (failed, h', t')"
    "\<not> failed \<longrightarrow>
           m_cDivisions (m_aDimensions t' ! 0) = 3
         \<and> m_cDivisionCapacity (m_aDimensions t' ! 0) = 3 + 3 div 2
         \<and> length (m_aDivisions (m_aDimensions t' ! 0)) = 3 + 3 div 2
         \<and> take (m_cDivisionCapacity (m_aDimensions scenario_C ! 0)) (m_aDivisions (m_aDimensions t' ! 0))
             = m_aDivisions (m_aDimensions scenario_C ! 0)"
    by (auto simp add: scenario_C_def)
  with nf [of h' t'] show ?thesis
    by (cases failed) (auto simp add: scenario_C_def)
qed

section \<open>IsEqual\<close>

lemma segments_simps [simp]:
  "segments [] = 1"
  "segments (d # ds) = (m_cDivisions d + 1) * segments ds"
  by (simp_all add: segments_def)

lemma segments_pos [simp]: "0 < segments ds"
  by (induction ds) simp_all

lemma isequal_loop_eq:
  "pCur < pEnd \<Longrightarrow> pEnd \<le> length a1 \<Longrightarrow> pEnd \<le> length a2 \<Longrightarrow>
   isequal_loop ne a1 a2 pCur pEnd = Some (\<forall>i. pCur \<le> i \<and> i < pEnd \<longrightarrow> \<not> ne (a1 ! i) (a2 ! i))"
proof (induction ne a1 a2 pCur pEnd rule: isequal_loop.induct)
  case (1 ne a1 a2 pCur pEnd)
  show ?case
  proof (cases "ne (a1 ! pCur) (a2 ! pCur)")
    case True
    with "1.prems" show ?thesis
      by (subst isequal_loop.simps) auto
  next
    case False
    show ?thesis
    proof (cases "pEnd = pCur + 1")
      case e: True
      have "(\<forall>i. pCur \<le> i \<and> i < pEnd \<longrightarrow> \<not> ne (a1 ! i) (a2 ! i))"
        using False e by (auto simp add: le_less_Suc_eq)
      with "1.prems" False e show ?thesis
        by (subst isequal_loop.simps) simp
    next
      case n: False
      have ih: "isequal_loop ne a1 a2 (pCur + 1) pEnd
              = Some (\<forall>i. pCur + 1 \<le> i \<and> i < pEnd \<longrightarrow> \<not> ne (a1 ! i) (a2 ! i))"
        using "1.IH" "1.prems" False n by simp
      have "(\<forall>i. pCur + 1 \<le> i \<and> i < pEnd \<longrightarrow> \<not> ne (a1 ! i) (a2 ! i))
          = (\<forall>i. pCur \<le> i \<and> i < pEnd \<longrightarrow> \<not> ne (a1 ! i) (a2 ! i))"
        using False by (metis Suc_eq_plus1 Suc_leI le_neq_implies_less le_simps(3) less_imp_le_nat)
      with ih "1.prems" False n show ?thesis
        by (subst isequal_loop.simps) simp
    qed
  qed
qed

lemma isequal_loop_all2:
  assumes "0 < n" "n \<le> length a1" "n \<le> length a2"
  shows "isequal_loop ne a1 a2 0 n = Some (list_all2 (\<lambda>x y. \<not> ne x y) (take n a1) (take n a2))"
proof -
  have "(\<forall>i. 0 \<le> i \<and> i < n \<longrightarrow> \<not> ne (a1 ! i) (a2 ! i))
      = list_all2 (\<lambda>x y. \<not> ne x y) (take n a1) (take n a2)"
    using assms by (auto simp add: list_all2_conv_all_nth)
  with isequal_loop_eq [of 0 n a1 a2 ne] assms show ?thesis by simp
qed

lemma isequal_loop_take:
  assumes "0 < n" "n \<le> length a1" "n \<le> length a2"
  shows "isequal_loop (\<lambda>x y. x \<noteq> y) a1 a2 0 n = Some (take n a1 = take n a2)"
proof -
  have "(\<forall>i. 0 \<le> i \<and> i < n \<longrightarrow> \<not> a1 ! i \<noteq> a2 ! i) = (take n a1 = take n a2)"
    using assms by (auto simp add: list_eq_iff_nth_eq)
  with isequal_loop_eq [of 0 n a1 a2 "\<lambda>x y. x \<noteq> y"] assms show ?thesis by simp
qed

lemma isequal_dimensions_zero:
  "list_all (\<lambda>d. m_cDivisions d = 0) ds1 \<Longrightarrow> list_all (\<lambda>d. m_cDivisions d = 0) ds2 \<Longrightarrow>
   length ds1 \<le> length ds2 \<Longrightarrow> isequal_dimensions ds1 ds2 c = Some (Some c)"
  by (induction ds1 ds2 c rule: isequal_dimensions.induct) auto

lemma isequal_dimensions_eq:
  "length ds1 = length ds2 \<Longrightarrow> list_all wf_dimension ds1 \<Longrightarrow> list_all wf_dimension ds2 \<Longrightarrow>
   c * segments ds1 \<le> size_max \<Longrightarrow>
   isequal_dimensions ds1 ds2 c =
     Some (if list_all2 same_divisions ds1 ds2 then Some (c * segments ds1) else None)"
proof (induction ds1 ds2 c rule: isequal_dimensions.induct)
  case (1 ds2 cValues)
  then show ?case by simp
next
  case (2 pDimension1 ds1 cValues)
  then show ?case by simp
next
  case (3 d1 ds1 d2 ds2 c)
  let ?k = "m_cDivisions d1"
  have bound: "c * (?k + 1) * segments ds1 \<le> size_max"
    using "3.prems"(4) by (simp add: algebra_simps)
  have "1 \<le> segments ds1"
    by (simp add: Suc_leI)
  from mult_le_mono2 [OF this, of "c * (?k + 1)"]
  have "c * (?k + 1) \<le> c * (?k + 1) * segments ds1"
    by (simp only: mult_1_right)
  from this bound have "c * (?k + 1) \<le> size_max"
    by (rule order_trans)
  then have noerr: "\<not> IsMultiplyError c (?k + 1)"
    by (simp only: IsMultiplyError_def not_less)
  show ?case
  proof (cases "?k = m_cDivisions d2")
    case False
    then show ?thesis by (simp add: same_divisions_def)
  next
    case same: True
    show ?thesis
    proof (cases "?k = 0")
      case True
      with same "3.IH"(2) "3.prems" show ?thesis
        by (simp add: same_divisions_def)
    next
      case False
      have le1: "?k \<le> length (m_aDivisions d1)" and le2: "?k \<le> length (m_aDivisions d2)"
        using "3.prems"(2,3) same by (simp_all add: wf_dimension_def)
      have loop: "isequal_loop (\<lambda>x y. x \<noteq> y) (m_aDivisions d1) (m_aDivisions d2) 0 ?k
          = Some (take ?k (m_aDivisions d1) = take ?k (m_aDivisions d2))"
        using False le1 le2 by (intro isequal_loop_take) simp_all
      show ?thesis
      proof (cases "take ?k (m_aDivisions d1) = take ?k (m_aDivisions d2)")
        case f: False
        with same False noerr loop show ?thesis
          by (simp add: same_divisions_def)
      next
        case t: True
        have sd: "same_divisions d1 d2"
          using same t by (simp add: same_divisions_def)
        have "isequal_dimensions ds1 ds2 (c * (?k + 1)) =
           Some (if list_all2 same_divisions ds1 ds2 then Some (c * (?k + 1) * segments ds1) else None)"
          using "3.IH"(1) same False noerr loop t "3.prems" bound
          by simp
        with same False noerr loop sd t show ?thesis
          by (simp add: algebra_simps)
      qed
    qed
  qed
qed

lemma count_values_segments:
  "count_values t = m_cVectorLength t * segments (take (m_cDimensions t) (m_aDimensions t))"
  by (simp add: count_values_def segments_def)

lemma same_divisions_segments:
  "list_all2 same_divisions ds1 ds2 \<Longrightarrow> segments ds1 = segments ds2"
  by (induction ds1 ds2 rule: list_all2_induct) (simp_all add: same_divisions_def)

text \<open>
  C9. On well-formed tensors with the same score vector length, \<open>IsEqual\<close> returns
  whether the dimension counts agree, the division counts and division sequences of the
  active dimensions agree, and the meaningful scores compare equal cell by cell under the
  operator \<open>!=\<close> of the scores; capacities, unused cells and the expanded flag play no
  part. So two tensors with the same content whose meaningful scores all compare equal to
  themselves (none is a NaN) are \<open>IsEqual\<close>.
\<close>

theorem IsEqual_same_content:
  assumes "wf_tensor t" and "wf_tensor rhs" and "m_cVectorLength rhs = m_cVectorLength t"
  shows "IsEqual ne t rhs =
       Some (m_cDimensions t = m_cDimensions rhs
         \<and> list_all2 same_divisions (take (m_cDimensions t) (m_aDimensions t))
              (take (m_cDimensions t) (m_aDimensions rhs))
         \<and> list_all2 (\<lambda>x y. \<not> ne x y) (values_of t) (values_of rhs))
     \<and> (same_content t rhs \<and> list_all (\<lambda>x. \<not> ne x x) (values_of t)
          \<longrightarrow> IsEqual ne t rhs = Some True)"
proof -
  let ?ds1 = "take (m_cDimensions t) (m_aDimensions t)"
  let ?ds2 = "take (m_cDimensions t) (m_aDimensions rhs)"
  let ?eq = "list_all2 (\<lambda>x y. \<not> ne x y) (values_of t) (values_of rhs)"
  have first: "IsEqual ne t rhs
      = Some (m_cDimensions t = m_cDimensions rhs \<and> list_all2 same_divisions ?ds1 ?ds2 \<and> ?eq)"
  proof (cases "m_cDimensions t = m_cDimensions rhs")
    case False
    then show ?thesis by (simp add: IsEqual_def)
  next
    case True
    have len: "length ?ds1 = length ?ds2"
      using assms True by (simp add: wf_tensor_def)
    have wf1: "list_all wf_dimension ?ds1" and wf2: "list_all wf_dimension ?ds2"
      using assms True by (simp_all add: wf_tensor_def)
    have bound: "m_cVectorLength t * segments ?ds1 \<le> size_max"
      using assms(1) by (simp add: wf_tensor_def count_values_segments)
    note dims = isequal_dimensions_eq [OF len wf1 wf2 bound]
    have inb: "\<not> length (m_aDimensions t) < m_cDimensions t"
      "\<not> length (m_aDimensions rhs) < m_cDimensions t"
      using assms True by (simp_all add: wf_tensor_def)
    show ?thesis
    proof (cases "list_all2 same_divisions ?ds1 ?ds2")
      case False
      with True dims inb show ?thesis by (simp add: IsEqual_def)
    next
      case same: True
      have seg: "segments ?ds2 = segments ?ds1"
        using same_divisions_segments [OF same] by simp
      have cv: "count_values rhs = count_values t"
        using True assms(3) seg by (simp add: count_values_segments)
      have pos: "0 < count_values t"
        using assms(1) by (simp add: count_values_segments wf_tensor_def)
      have l1: "count_values t \<le> length (m_aValues t)" and l2: "count_values t \<le> length (m_aValues rhs)"
        using assms(1,2) cv by (simp_all add: wf_tensor_def)
      from isequal_loop_all2 [OF pos l1 l2, of ne] True dims inb same cv show ?thesis
        by (simp add: IsEqual_def values_of_def count_values_segments)
    qed
  qed
  have "?eq" if c: "same_content t rhs" and n: "list_all (\<lambda>x. \<not> ne x x) (values_of t)"
  proof -
    from c have "values_of rhs = values_of t" by (simp add: same_content_def)
    with n show ?thesis by (simp add: list_all2_same list_all_iff)
  qed
  with first show ?thesis by (auto simp add: same_content_def)
qed

theorem IsEqual_same_content_witness:
  "wf_tensor (double_C PlusInf) \<and> wf_tensor (double_C_roomy PlusInf)
   \<and> m_bExpanded (double_C PlusInf) \<noteq> m_bExpanded (double_C_roomy PlusInf)
   \<and> m_cValueCapacity (double_C PlusInf) \<noteq> m_cValueCapacity (double_C_roomy PlusInf)
   \<and> same_content (double_C PlusInf) (double_C_roomy PlusInf)
   \<and> list_all (\<lambda>x. \<not> dbl_ne x x) (values_of (double_C PlusInf))
   \<and> IsEqual dbl_ne (double_C PlusInf) (double_C_roomy PlusInf) = Some True"
proof -
  have wf: "wf_tensor (double_C PlusInf)" "wf_tensor (double_C_roomy PlusInf)"
    by (simp_all add: wf_tensor_def wf_dimension_def count_values_def size_simps
        double_C_def double_C_roomy_def)
  have l: "m_cVectorLength (double_C_roomy PlusInf) = m_cVectorLength (double_C PlusInf)"
    by (simp add: double_C_def double_C_roomy_def)
  have c: "same_content (double_C PlusInf) (double_C_roomy PlusInf)"
    by (simp add: same_content_def same_divisions_def view_simps double_C_def double_C_roomy_def)
  have n: "list_all (\<lambda>x. \<not> dbl_ne x x) (values_of (double_C PlusInf))"
    by (simp add: view_simps dbl_ne_def double_C_def)
  from IsEqual_same_content [OF wf l, of dbl_ne] c n
  have "IsEqual dbl_ne (double_C PlusInf) (double_C_roomy PlusInf) = Some True"
    by blast
  with wf c n show ?thesis
    by (simp add: double_C_def double_C_roomy_def)
qed

text \<open>
  Two tensors of doubles with the same content, one of whose meaningful scores is a NaN,
  are not \<open>IsEqual\<close>: the NaN differs from itself.
\<close>

theorem IsEqual_same_content_counterexample:
  "wf_tensor (double_C NaN) \<and> wf_tensor (double_C_roomy NaN)
   \<and> m_cVectorLength (double_C_roomy NaN) = m_cVectorLength (double_C NaN)
   \<and> same_content (double_C NaN) (double_C_roomy NaN)
   \<and> IsEqual dbl_ne (double_C NaN) (double_C_roomy NaN) = Some False"
  by (simp add: wf_tensor_def wf_dimension_def count_values_def size_simps same_content_def
      same_divisions_def view_simps IsEqual_def isequal_loop.simps dbl_ne_def
      double_C_def double_C_roomy_def)

section \<open>Reset and Allocate\<close>

lemma allocate_dimensions_result:
  "allocate_dimensions h n = Some (h', ds) \<Longrightarrow>
   length ds = n \<and> list_all (\<lambda>d. m_cDivisions d = 0) ds"
  by (induction h n arbitrary: h' ds rule: allocate_dimensions.induct)
     (auto split: prod.splits bool.splits option.splits)

lemma Allocate_Some:
  fixes h :: "'v::zero Heap"
  assumes "Allocate h cDimensionsMax cVectorLength = Some (Some fresh)"
  shows "1 \<le> cVectorLength \<and> m_cDimensions fresh = cDimensionsMax
     \<and> m_cVectorLength fresh = cVectorLength
     \<and> m_aValues fresh = map (\<lambda>i. if i < cVectorLength then 0 else h_fresh_val h i)
          [0..<cVectorLength * 2]
     \<and> length (m_aDimensions fresh) = cDimensionsMax
     \<and> list_all (\<lambda>d. m_cDivisions d = 0) (m_aDimensions fresh)"
  using assms
  by (auto simp add: Allocate_def Let_def k_initialValueCapacity_def
      dest: allocate_dimensions_result
      split: if_splits prod.splits bool.splits option.splits)

text \<open>
  C5. A tensor whose active dimension count is \<open>cDimensionsMax\<close>, once \<open>Reset\<close>, is
  \<open>IsEqual\<close> to the tensor a successful \<open>Allocate(cDimensionsMax, cVectorLength)\<close>
  returns: in both, every active dimension has no division and the first \<open>cVectorLength\<close>
  scores are zero. The zero of the scores compares equal to itself under their operator
  \<open>!=\<close>, as the zero of a floating-point or integer type does.
\<close>

theorem Reset_IsEqual_Allocate:
  assumes "Allocate h cDimensionsMax cVectorLength = Some (Some fresh)"
    and "m_cDimensions t = cDimensionsMax"
    and "m_cVectorLength t = cVectorLength"
    and "Reset t = Some t'"
    and "\<not> ne 0 0"
  shows "IsEqual ne t' fresh = Some True
     \<and> list_all (\<lambda>d. m_cDivisions d = 0) (take cDimensionsMax (m_aDimensions t'))
     \<and> list_all (\<lambda>d. m_cDivisions d = 0) (take cDimensionsMax (m_aDimensions fresh))
     \<and> take cVectorLength (m_aValues t') = replicate cVectorLength 0
     \<and> take cVectorLength (m_aValues fresh) = replicate cVectorLength 0"
proof -
  note fresh = Allocate_Some [OF assms(1)]
  have L: "1 \<le> cVectorLength" using fresh by simp
  from assms(4) have
    t': "m_cDimensions t' = m_cDimensions t" "m_cVectorLength t' = m_cVectorLength t"
      "m_aDimensions t' = map (\<lambda>d. d\<lparr>m_cDivisions := 0\<rparr>) (take (m_cDimensions t) (m_aDimensions t))
                       @ drop (m_cDimensions t) (m_aDimensions t)"
      "m_aValues t' = replicate (m_cVectorLength t) 0 @ drop (m_cVectorLength t) (m_aValues t)"
    and lens: "m_cDimensions t \<le> length (m_aDimensions t)" "m_cVectorLength t \<le> length (m_aValues t)"
    by (auto simp add: Reset_def split: if_splits)
  from fresh have
    fd: "length (m_aDimensions fresh) = cDimensionsMax"
      "list_all (\<lambda>d. m_cDivisions d = 0) (m_aDimensions fresh)"
    by simp_all
  have z1: "list_all (\<lambda>d. m_cDivisions d = 0) (take cDimensionsMax (m_aDimensions t'))"
    using t' lens assms(2) by (simp add: list_all_iff)
  have z2: "list_all (\<lambda>d. m_cDivisions d = 0) (take cDimensionsMax (m_aDimensions fresh))"
    using fd by simp
  have v1: "take cVectorLength (m_aValues t') = replicate cVectorLength 0"
    using t' assms(3) by simp
  have v2: "take cVectorLength (m_aValues fresh) = replicate cVectorLength 0"
    using fresh L by (simp add: take_map list_eq_iff_nth_eq)
  have dims: "isequal_dimensions (take cDimensionsMax (m_aDimensions t'))
       (take cDimensionsMax (m_aDimensions fresh)) cVectorLength = Some (Some cVectorLength)"
    using z1 z2 fd t' lens assms(2) by (intro isequal_dimensions_zero) simp_all
  have "list_all2 (\<lambda>x y. \<not> ne x y) (replicate cVectorLength 0) (replicate cVectorLength 0)"
    using assms(5) by (simp add: list_all2_conv_all_nth)
  moreover have "isequal_loop ne (m_aValues t') (m_aValues fresh) 0 cVectorLength
      = Some (list_all2 (\<lambda>x y. \<not> ne x y) (take cVectorLength (m_aValues t'))
                (take cVectorLength (m_aValues fresh)))"
    using L t' lens assms(3) fresh by (intro isequal_loop_all2) simp_all
  ultimately have "isequal_loop ne (m_aValues t') (m_aValues fresh) 0 cVectorLength = Some True"
    unfolding v1 v2 by simp
  with dims t' assms(2,3) fresh fd lens have "IsEqual ne t' fresh = Some True"
    by (simp add: IsEqual_def)
  with z1 z2 v1 v2 show ?thesis by simp
qed

theorem Reset_IsEqual_Allocate_witness:
  "\<not> dbl_ne 0 0
   \<and> (\<exists>fresh t'. Allocate double_heap 1 1 = Some (Some fresh) \<and> Reset (double_C PlusInf) = Some t'
          \<and> IsEqual dbl_ne t' fresh = Some True)"
proof -
  have "\<exists>fresh. Allocate double_heap 1 1 = Some (Some fresh)"
    by (simp add: Allocate_def size_simps heap_request_def k_initialValueCapacity_def
        k_initialDivisionCapacity_def double_heap_def)
  then obtain fresh where a: "Allocate double_heap 1 1 = Some (Some fresh)"
    by blast
  have "\<exists>t'. Reset (double_C PlusInf) = Some t'"
    by (simp add: Reset_def double_C_def)
  then obtain t' where r: "Reset (double_C PlusInf) = Some t'"
    by blast
  have d: "m_cDimensions (double_C PlusInf) = 1" and l: "m_cVectorLength (double_C PlusInf) = 1"
    by (simp_all add: double_C_def)
  have z: "\<not> dbl_ne 0 0"
    by (simp add: dbl_ne_def zero_dbl_def)
  from Reset_IsEqual_Allocate [OF a d l r, where ne = dbl_ne, OF z] a r z show ?thesis
    by blast
qed

section \<open>GenerateTermUpdate\<close>

lemma scale_eq:
  "GenerateTermUpdate_scale c cScores cDimensions multiple gainAvg sh =
     (case MultiplyAndCheckForIssues c (final_multiple c cScores multiple) (m_pTermUpdate sh) of
        None \<Rightarrow> None
      | Some (bBad, update) \<Rightarrow>
          if bBad then
            (case SetCountDimensions_Reset cDimensions update of
               None \<Rightarrow> None
             | Some update' \<Rightarrow> Some (k_illegalGainDouble c, sh\<lparr>m_pTermUpdate := update'\<rparr>))
          else Some (if \<not> gainAvg \<le> numeric_limits_max c then k_illegalGainDouble c else gainAvg,
                     sh\<lparr>m_pTermUpdate := update\<rparr>))"
  by (simp add: GenerateTermUpdate_scale_def final_multiple_def Let_def)

lemma boost_out:
  assumes "GenerateTermUpdate_boost c ext rng boosterHandle indexTerm flags learningRate avgGainOut
             = Some (Inr (iTerm, cScores, cDimensions, multiple, gainAvg, sh, out))"
  shows "out = map_option (\<lambda>old. k_illegalGainDouble c) avgGainOut"
  using assms
  by (auto simp add: GenerateTermUpdate_boost_def Let_def
      split: option.splits if_splits prod.splits)

lemma Reset_zero_state:
  assumes "Reset t = Some t'"
  shows "list_all (\<lambda>d. m_cDivisions d = 0) (take (m_cDimensions t) (m_aDimensions t'))
     \<and> take (m_cVectorLength t) (m_aValues t') = replicate (m_cVectorLength t) 0
     \<and> \<not> m_bExpanded t' \<and> m_cDimensions t' = m_cDimensions t"
  using assms by (auto simp add: Reset_def list_all_iff split: if_splits)

text \<open>
  C7. A run of \<open>GenerateTermUpdate\<close> that reaches the scaling of the round update with a
  multiplier, and in which a score of the round update times the final multiplier (the
  multiplier, halved exactly when there are two scores) is NaN or an infinity: the scaling
  reports it, the round update is given its dimension count again and reset (no divisions,
  a zero score vector), \<open>avgGainOut\<close> receives the sentinel when it is not null, and the
  function returns \<open>Error_None\<close>. That the function returns at all is a hypothesis: it
  says that the reset stays within the buffers of the update.
\<close>

theorem GenerateTermUpdate_poisoned_update:
  assumes "GenerateTermUpdate_boost c ext rng boosterHandle indexTerm flags learningRate avgGainOut
             = Some (Inr (iTerm, cScores, cDimensions, Some multiple, gainAvg, sh, out))"
    and "m_cDimensions (m_pTermUpdate sh) \<le> length (m_aDimensions (m_pTermUpdate sh))"
    and "count_values (m_pTermUpdate sh) \<le> length (m_aValues (m_pTermUpdate sh))"
    and "list_ex (\<lambda>x. std_isnan c x \<or> std_isinf c x)
           (map (\<lambda>x. x * final_multiple c cScores multiple) (values_of (m_pTermUpdate sh)))"
    and "GenerateTermUpdate c ext rng boosterHandle indexTerm flags learningRate avgGainOut \<noteq> None"
  shows "\<exists>scaled update' sh'.
       MultiplyAndCheckForIssues c (final_multiple c cScores multiple) (m_pTermUpdate sh) = Some (True, scaled)
     \<and> SetCountDimensions cDimensions scaled = Some update'
     \<and> Reset update' = Some (m_pTermUpdate sh')
     \<and> list_all (\<lambda>d. m_cDivisions d = 0) (take cDimensions (m_aDimensions (m_pTermUpdate sh')))
     \<and> take (m_cVectorLength update') (m_aValues (m_pTermUpdate sh')) = replicate (m_cVectorLength update') 0
     \<and> GenerateTermUpdate c ext rng boosterHandle indexTerm flags learningRate avgGainOut
         = Some (Error_None, Some sh', map_option (\<lambda>old. k_illegalGainDouble c) avgGainOut)"
proof -
  note out = boost_out [OF assms(1)]
  from assms(2,3,4) obtain scaled where
    m: "MultiplyAndCheckForIssues c (final_multiple c cScores multiple) (m_pTermUpdate sh) = Some (True, scaled)"
    by (auto simp add: MultiplyAndCheckForIssues_def Let_def)
  from assms(1,5) m obtain update' r where
    s: "SetCountDimensions cDimensions scaled = Some update'" and r: "Reset update' = Some r"
    by (auto simp add: GenerateTermUpdate_def scale_eq SetCountDimensions_Reset_def split: option.splits)
  have d: "m_cDimensions update' = cDimensions"
    using s by (auto simp add: SetCountDimensions_def split: if_splits)
  from assms(1) m s r out have
    "GenerateTermUpdate c ext rng boosterHandle indexTerm flags learningRate avgGainOut
       = Some (Error_None, Some (sh\<lparr>m_pTermUpdate := r, m_iTerm := Some iTerm\<rparr>),
               map_option (\<lambda>old. k_illegalGainDouble c) avgGainOut)"
    by (simp add: GenerateTermUpdate_def scale_eq SetCountDimensions_Reset_def option.map_comp comp_def)
  with m s r Reset_zero_state [OF r] d show ?thesis
    by (intro exI [of _ scaled] exI [of _ update']
        exI [of _ "sh\<lparr>m_pTermUpdate := r, m_iTerm := Some iTerm\<rparr>"]) simp
qed


lemma boost_Inl:
  assumes "GenerateTermUpdate_boost c ext rng boosterHandle indexTerm flags learningRate avgGainOut
             = Some (Inl (error, sh', out))"
    and "error \<noteq> Error_None"
  shows "out = map_option (\<lambda>old. k_illegalGainDouble c) avgGainOut"
  using assms
  by (simp add: GenerateTermUpdate_boost_def Let_def
      split: option.splits if_splits prod.splits)

text \<open>
  C10. \<open>GenerateTermUpdate\<close> writes the sentinel through \<open>avgGainOut\<close> first. A null
  handle, a negative term index and a term index at or above the term count each return
  \<open>Error_IllegalParamVal\<close> with the sentinel behind \<open>avgGainOut\<close> (when it is not null);
  and so does every return with an error code.
\<close>

theorem GenerateTermUpdate_IllegalParamVal:
  "(boosterHandle = None \<or> indexTerm < 0
      \<or> (\<exists>sh. boosterHandle = Some sh \<and> int (length (m_apTerms (m_pBoosterCore sh))) \<le> indexTerm)
    \<longrightarrow> (\<exists>sh'. GenerateTermUpdate c ext rng boosterHandle indexTerm flags learningRate avgGainOut
          = Some (Error_IllegalParamVal, sh', map_option (\<lambda>old. k_illegalGainDouble c) avgGainOut)))
   \<and> (\<forall>error sh' out.
        GenerateTermUpdate c ext rng boosterHandle indexTerm flags learningRate avgGainOut
          = Some (error, sh', out) \<and> error \<noteq> Error_None
        \<longrightarrow> out = map_option (\<lambda>old. k_illegalGainDouble c) avgGainOut)"
proof (intro conjI impI allI)
  assume "boosterHandle = None \<or> indexTerm < 0
      \<or> (\<exists>sh. boosterHandle = Some sh \<and> int (length (m_apTerms (m_pBoosterCore sh))) \<le> indexTerm)"
  then show "\<exists>sh'. GenerateTermUpdate c ext rng boosterHandle indexTerm flags learningRate avgGainOut
          = Some (Error_IllegalParamVal, sh', map_option (\<lambda>old. k_illegalGainDouble c) avgGainOut)"
    by (cases boosterHandle) (auto simp add: GenerateTermUpdate_def GenerateTermUpdate_boost_def Let_def)
next
  fix error sh' out
  assume a: "GenerateTermUpdate c ext rng boosterHandle indexTerm flags learningRate avgGainOut
          = Some (error, sh', out) \<and> error \<noteq> Error_None"
  then show "out = map_option (\<lambda>old. k_illegalGainDouble c) avgGainOut"
    by (auto simp add: GenerateTermUpdate_def dest: boost_Inl split: option.splits sum.splits)
qed

lemmas run_simps =
  GenerateTermUpdate_def GenerateTermUpdate_boost_def GenerateTermUpdate_scale_def
  MultiplyAndCheckForIssues_def SetCountDimensions_Reset_def SetCountDimensions_def Reset_def
  final_multiple_def view_simps Let_def
  ieee_def tensor0_def core0_def shell1_def shell2_def flags0_def collaborators_def
  zero_dbl_def times_dbl_def divide_dbl_def less_eq_dbl_def

theorem GenerateTermUpdate_IllegalParamVal_witness:
  "(\<exists>sh'. GenerateTermUpdate ieee (collaborators [Finite 4] (Finite 3)) False None 0 flags0
            (Finite 1) (Some (Finite 5))
          = Some (Error_IllegalParamVal, sh', Some (k_illegalGainDouble ieee)))
   \<and> (\<exists>sh'. GenerateTermUpdate ieee (collaborators [Finite 4] (Finite 3)) False (Some shell1) (- 1) flags0
            (Finite 1) (Some (Finite 5))
          = Some (Error_IllegalParamVal, sh', Some (k_illegalGainDouble ieee)))
   \<and> (\<exists>sh'. GenerateTermUpdate ieee (collaborators [Finite 4] (Finite 3)) False (Some shell1) 1 flags0
            (Finite 1) (Some (Finite 5))
          = Some (Error_IllegalParamVal, sh', Some (k_illegalGainDouble ieee)))"
proof -
  let ?ext = "collaborators [Finite 4] (Finite 3)"
  have l: "int (length (m_apTerms (m_pBoosterCore shell1))) \<le> 1"
    by (simp add: shell1_def core0_def)
  from GenerateTermUpdate_IllegalParamVal [of None 0 ieee ?ext False flags0 "Finite 1" "Some (Finite 5)"]
  have 1: "\<exists>sh'. GenerateTermUpdate ieee ?ext False None 0 flags0 (Finite 1) (Some (Finite 5))
          = Some (Error_IllegalParamVal, sh', Some (k_illegalGainDouble ieee))"
    by simp
  from GenerateTermUpdate_IllegalParamVal [of "Some shell1" "- 1" ieee ?ext False flags0 "Finite 1" "Some (Finite 5)"]
  have 2: "\<exists>sh'. GenerateTermUpdate ieee ?ext False (Some shell1) (- 1) flags0 (Finite 1) (Some (Finite 5))
          = Some (Error_IllegalParamVal, sh', Some (k_illegalGainDouble ieee))"
    by simp
  from GenerateTermUpdate_IllegalParamVal [of "Some shell1" 1 ieee ?ext False flags0 "Finite 1" "Some (Finite 5)"] l
  have 3: "\<exists>sh'. GenerateTermUpdate ieee ?ext False (Some shell1) 1 flags0 (Finite 1) (Some (Finite 5))
          = Some (Error_IllegalParamVal, sh', Some (k_illegalGainDouble ieee))"
    by simp
  from 1 2 3 show ?thesis by blast
qed

theorem GenerateTermUpdate_poisoned_update_witness:
  "\<exists>sh'. GenerateTermUpdate ieee (collaborators [Finite 4, PlusInf] (Finite 3)) False (Some shell2) 0 flags0
            (Finite 1) (Some (Finite 5))
          = Some (Error_None, Some sh', Some (k_illegalGainDouble ieee))
     \<and> values_of (m_pTermUpdate sh') = [Finite 0, Finite 0]"
proof -
  let ?ext = "collaborators [Finite 4, PlusInf] (Finite 3)"
  have "\<exists>sh out. GenerateTermUpdate_boost ieee ?ext False (Some shell2) 0 flags0 (Finite 1) (Some (Finite 5))
           = Some (Inr (0, 2, 0, Some (Finite 1), Finite 3, sh, out))
         \<and> m_pTermUpdate sh = tensor0 [Finite 4, PlusInf]"
    by (simp add: run_simps)
  then obtain sh out where
    b: "GenerateTermUpdate_boost ieee ?ext False (Some shell2) 0 flags0 (Finite 1) (Some (Finite 5))
           = Some (Inr (0, 2, 0, Some (Finite 1), Finite 3, sh, out))"
    and u: "m_pTermUpdate sh = tensor0 [Finite 4, PlusInf]"
    by blast
  have h2: "m_cDimensions (m_pTermUpdate sh) \<le> length (m_aDimensions (m_pTermUpdate sh))"
    and h3: "count_values (m_pTermUpdate sh) \<le> length (m_aValues (m_pTermUpdate sh))"
    and h4: "list_ex (\<lambda>x. std_isnan ieee x \<or> std_isinf ieee x)
           (map (\<lambda>x. x * final_multiple ieee 2 (Finite 1)) (values_of (m_pTermUpdate sh)))"
    by (simp_all add: u run_simps)
  have h5: "GenerateTermUpdate ieee ?ext False (Some shell2) 0 flags0 (Finite 1) (Some (Finite 5)) \<noteq> None"
    by (simp add: run_simps)
  from GenerateTermUpdate_poisoned_update [OF b h2 h3 h4 h5]
  obtain scaled update' sh' where
    m: "MultiplyAndCheckForIssues ieee (final_multiple ieee 2 (Finite 1)) (m_pTermUpdate sh) = Some (True, scaled)"
    and s: "SetCountDimensions 0 scaled = Some update'"
    and r: "Reset update' = Some (m_pTermUpdate sh')"
    and g: "GenerateTermUpdate ieee ?ext False (Some shell2) 0 flags0 (Finite 1) (Some (Finite 5))
         = Some (Error_None, Some sh', map_option (\<lambda>old. k_illegalGainDouble ieee) (Some (Finite 5)))"
    by blast
  from m s r have "m_pTermUpdate sh' = tensor0 [Finite 0, Finite 0]"
    by (auto simp add: u run_simps split: if_splits)
  then have "values_of (m_pTermUpdate sh') = [Finite 0, Finite 0]"
    by (simp add: view_simps tensor0_def)
  with g show ?thesis by simp
qed



section \<open>Add: the divisions of the result\<close>

lemma sorted_wrt_less_drop_Cons:
  assumes "sorted_wrt (<) (take K a)" "K \<le> length a" "p < K"
  shows "drop p (take K a) = a ! p # drop (Suc p) (take K a)"
    and "\<forall>z \<in> set (drop (Suc p) (take K a)). a ! p < (z::nat)"
    and "sorted_wrt (<) (drop (Suc p) (take K a))"
proof -
  have len: "p < length (take K a)" using assms by simp
  from Cons_nth_drop_Suc [OF len] show e: "drop p (take K a) = a ! p # drop (Suc p) (take K a)"
    using assms by simp
  have "sorted_wrt (<) (drop p (take K a))"
    using assms(1) by (rule sorted_wrt_drop)
  with e show "\<forall>z \<in> set (drop (Suc p) (take K a)). a ! p < z"
    and "sorted_wrt (<) (drop (Suc p) (take K a))"
    by simp_all
qed

lemma card_set_sorted_wrt_less: "sorted_wrt (<) (xs::nat list) \<Longrightarrow> card (set xs) = length xs"
  by (simp add: distinct_card strict_sorted_iff)

lemma add_count_eq:
  assumes "sorted_wrt (<) (take K1 a1)" "sorted_wrt (<) (take K2 a2)"
    and "K1 \<le> length a1" "K2 \<le> length a2" "p1 \<le> K1" "p2 \<le> K2"
    and "c + (K1 - p1) + (K2 - p2) \<le> size_max"
  shows "add_count a1 a2 p1 K1 p2 K2 c
       = Some (c + card (set (drop p1 (take K1 a1)) \<union> set (drop p2 (take K2 a2))))"
  using assms
proof (induction a1 a2 p1 K1 p2 K2 c rule: add_count.induct)
  case (1 a1 a2 p1 K1 p2 K2 c)
  have sz_id: "sz n = n" if "n \<le> size_max" for n
    using that by (simp add: sz_def size_max_def)
  show ?case
  proof (cases "K2 = p2")
    case True
    have "sorted_wrt (<) (drop p1 (take K1 a1))" using "1.prems"(1) by (rule sorted_wrt_drop)
    then have "card (set (drop p1 (take K1 a1))) = K1 - p1"
      using "1.prems" by (simp add: card_set_sorted_wrt_less)
    with True "1.prems" show ?thesis
      by (subst add_count.simps) (simp add: sz_id)
  next
    case n2: False
    show ?thesis
    proof (cases "K1 = p1")
      case True
      have "sorted_wrt (<) (drop p2 (take K2 a2))" using "1.prems"(2) by (rule sorted_wrt_drop)
      then have "card (set (drop p2 (take K2 a2))) = K2 - p2"
        using "1.prems" by (simp add: card_set_sorted_wrt_less)
      with True n2 "1.prems" show ?thesis
        by (subst add_count.simps) (simp add: sz_id)
    next
      case n1: False
      have lt: "p1 < K1" "p2 < K2" using n1 n2 "1.prems" by simp_all
      note x = sorted_wrt_less_drop_Cons [OF "1.prems"(1,3) lt(1)]
      note y = sorted_wrt_less_drop_Cons [OF "1.prems"(2,4) lt(2)]
      let ?d1 = "a1 ! p1" and ?d2 = "a2 ! p2"
      let ?p1 = "if ?d1 \<le> ?d2 then p1 + 1 else p1"
      let ?p2 = "if ?d2 \<le> ?d1 then p2 + 1 else p2"
      have step: "add_count a1 a2 p1 K1 p2 K2 c = add_count a1 a2 ?p1 K1 ?p2 K2 (sz (c + 1))"
        using lt n1 n2 "1.prems" by (subst add_count.simps) (simp add: Let_def)
      have c1: "sz (c + 1) = c + 1"
        using lt "1.prems"(7) by (intro sz_id) simp
      have ih: "add_count a1 a2 ?p1 K1 ?p2 K2 (c + 1)
           = Some (c + 1 + card (set (drop ?p1 (take K1 a1)) \<union> set (drop ?p2 (take K2 a2))))"
        using "1.IH" [OF _ _ _ refl refl] n1 n2 lt "1.prems" c1
        by (auto simp add: Let_def)
      have fin: "finite (set (drop p (take K a)))" for p K and a :: "nat list" by simp
      have "card (set (drop p1 (take K1 a1)) \<union> set (drop p2 (take K2 a2)))
          = 1 + card (set (drop ?p1 (take K1 a1)) \<union> set (drop ?p2 (take K2 a2)))"
      proof (cases "?d1 < ?d2")
        case True
        have "?d1 \<notin> set (drop (Suc p1) (take K1 a1)) \<union> set (drop p2 (take K2 a2))"
          using x(2) y(1,2) True by auto
        then show ?thesis using True x(1) by simp
      next
        case False
        show ?thesis
        proof (cases "?d2 < ?d1")
          case True
          have "?d2 \<notin> set (drop p1 (take K1 a1)) \<union> set (drop (Suc p2) (take K2 a2))"
            using x(1,2) y(2) True by auto
          then show ?thesis using True y(1) by simp
        next
          case f2: False
          then have eq: "?d1 = ?d2" using False by simp
          have "?d1 \<notin> set (drop (Suc p1) (take K1 a1)) \<union> set (drop (Suc p2) (take K2 a2))"
            using x(2) y(2) eq by auto
          then show ?thesis using eq x(1) y(1) by simp
        qed
      qed
      with step c1 ih show ?thesis by simp
    qed
  qed
qed

lemma take_last_sorted:
  assumes "sorted_wrt (<) (take q a)" "q \<le> length a" "0 < q"
  shows "take q a = take (q - 1) a @ [a ! (q - 1)]"
    and "\<forall>z \<in> set (take (q - 1) a). z < (a ! (q - 1) :: nat)"
    and "sorted_wrt (<) (take (q - 1) a)"
proof -
  have "take (Suc (q - 1)) a = take (q - 1) a @ [a ! (q - 1)]"
    using assms by (intro take_Suc_conv_app_nth) simp
  then show e: "take q a = take (q - 1) a @ [a ! (q - 1)]"
    using assms by simp
  from assms(1) show "\<forall>z \<in> set (take (q - 1) a). z < a ! (q - 1)"
    and "sorted_wrt (<) (take (q - 1) a)"
    unfolding e by (simp_all add: sorted_wrt_append)
qed

lemma merged_step_both:
  assumes "sorted_wrt (<) (take q1 a1)" "sorted_wrt (<) (take q2 a2)"
    and "q1 \<le> length a1" "q2 \<le> length a2" "0 < q1" "0 < q2"
    and "d1 = a1 ! (q1 - 1)" "d2 = a2 ! (q2 - 1)"
    and "q1' = (if d2 \<le> d1 then q1 - 1 else q1)" "q2' = (if d1 \<le> d2 then q2 - 1 else q2)"
    and "d = (if d1 \<le> d2 then d2 else d1)"
  shows "set (take q1 a1) \<union> set (take q2 a2) = insert d (set (take q1' a1) \<union> set (take q2' a2))"
    and "\<forall>z \<in> set (take q1' a1) \<union> set (take q2' a2). z < d"
    and "merged a1 q1' a2 q2' + 1 = merged a1 q1 a2 q2"
proof -
  note x = take_last_sorted [OF assms(1,3,5)]
  note y = take_last_sorted [OF assms(2,4,6)]
  show u: "set (take q1 a1) \<union> set (take q2 a2) = insert d (set (take q1' a1) \<union> set (take q2' a2))"
    using x(1) y(1) assms(7-11) by (cases "d1 \<le> d2"; cases "d2 \<le> d1") auto
  show l: "\<forall>z \<in> set (take q1' a1) \<union> set (take q2' a2). z < d"
  proof (cases "d1 \<le> d2"; cases "d2 \<le> d1")
    assume "d1 \<le> d2" "d2 \<le> d1"
    then show ?thesis using x(2) y(2) assms(7-11) by auto
  next
    assume a: "d1 \<le> d2" "\<not> d2 \<le> d1"
    have "\<forall>z \<in> set (take q1 a1). z < d2"
      using x(1,2) a assms(7) by (subst x(1)) auto
    then show ?thesis using y(2) a assms(7-11) by auto
  next
    assume a: "\<not> d1 \<le> d2" "d2 \<le> d1"
    have "\<forall>z \<in> set (take q2 a2). z < d1"
      using y(1,2) a assms(8) by (subst y(1)) auto
    then show ?thesis using x(2) a assms(7-11) by auto
  next
    assume "\<not> d1 \<le> d2" "\<not> d2 \<le> d1"
    then show ?thesis by simp
  qed
  from l have "d \<notin> set (take q1' a1) \<union> set (take q2' a2)" by blast
  then show "merged a1 q1' a2 q2' + 1 = merged a1 q1 a2 q2"
    unfolding merged_def u by simp
qed

lemma merged_step_left:
  assumes "sorted_wrt (<) (take q1 a1)" "q1 \<le> length a1" "0 < q1"
  shows "merged a1 (q1 - 1) a2 0 + 1 = merged a1 q1 a2 0"
proof -
  note x = take_last_sorted [OF assms]
  have "a1 ! (q1 - 1) \<notin> set (take (q1 - 1) a1)" using x(2) by blast
  moreover have "set (take q1 a1) = insert (a1 ! (q1 - 1)) (set (take (q1 - 1) a1))"
    by (subst x(1)) simp
  ultimately show ?thesis unfolding merged_def by simp
qed

lemma merged_step_right:
  assumes "sorted_wrt (<) (take q2 a2)" "q2 \<le> length a2" "0 < q2"
  shows "merged a1 0 a2 (q2 - 1) + 1 = merged a1 0 a2 q2"
proof -
  note y = take_last_sorted [OF assms]
  have "a2 ! (q2 - 1) \<notin> set (take (q2 - 1) a2)" using y(2) by blast
  moreover have "set (take q2 a2) = insert (a2 ! (q2 - 1)) (set (take (q2 - 1) a2))"
    by (subst y(1)) simp
  ultimately show ?thesis unfolding merged_def by simp
qed

lemma merged_ge:
  assumes "sorted_wrt (<) (take q1 a1)" "sorted_wrt (<) (take q2 a2)"
    and "q1 \<le> length a1" "q2 \<le> length a2"
  shows "q1 \<le> merged a1 q1 a2 q2" and "q2 \<le> merged a1 q1 a2 q2"
proof -
  have c1: "card (set (take q1 a1)) = q1" and c2: "card (set (take q2 a2)) = q2"
    using assms by (simp_all add: card_set_sorted_wrt_less)
  have "card (set (take q1 a1)) \<le> card (set (take q1 a1) \<union> set (take q2 a2))"
    by (intro card_mono) simp_all
  with c1 show "q1 \<le> merged a1 q1 a2 q2" by (simp add: merged_def)
  have "card (set (take q2 a2)) \<le> card (set (take q1 a1) \<union> set (take q2 a2))"
    by (intro card_mono) simp_all
  with c2 show "q2 \<le> merged a1 q1 a2 q2" by (simp add: merged_def)
qed

lemma merged_eq_left:
  assumes "sorted_wrt (<) (take q1 a1)" "q1 \<le> length a1" "merged a1 q1 a2 q2 = q1"
  shows "set (take q1 a1) \<union> set (take q2 a2) = set (take q1 a1)"
proof -
  have "card (set (take q1 a1)) = q1" using assms by (simp add: card_set_sorted_wrt_less)
  with assms(3) have "card (set (take q1 a1) \<union> set (take q2 a2)) = card (set (take q1 a1))"
    by (simp add: merged_def)
  then have "set (take q1 a1) \<union> set (take q2 a2) = set (take q1 a1)"
    by (metis List.finite_set Un_upper1 card_subset_eq finite_UnI)
  then show ?thesis .
qed

lemma merged_eq_right:
  assumes "sorted_wrt (<) (take q2 a2)" "q2 \<le> length a2" "merged a1 q1 a2 q2 = q2"
  shows "set (take q1 a1) \<union> set (take q2 a2) = set (take q2 a2)"
proof -
  have "card (set (take q2 a2)) = q2" using assms by (simp add: card_set_sorted_wrt_less)
  with assms(3) have "card (set (take q1 a1) \<union> set (take q2 a2)) = card (set (take q2 a2))"
    by (simp add: merged_def)
  then have "set (take q1 a1) \<union> set (take q2 a2) = set (take q2 a2)"
    by (metis List.finite_set Un_upper2 card_subset_eq finite_UnI)
  then show ?thesis .
qed

lemma add_merge_correct:
  assumes "add_merge a1 a2 p1 p2 pTop = Some r"
    and "sorted_wrt (<) (take p1 a1)" "sorted_wrt (<) (take p2 a2)"
    and "p1 \<le> length a1" "p2 \<le> length a2"
    and "pTop = merged a1 p1 a2 p2"
  shows "length r = length a1 \<and> sorted_wrt (<) (take pTop r)
     \<and> set (take pTop r) = set (take p1 a1) \<union> set (take p2 a2)
     \<and> (\<forall>k. pTop \<le> k \<and> k < length a1 \<longrightarrow> r ! k = a1 ! k)"
  using assms
proof (induction a1 a2 p1 p2 pTop arbitrary: r rule: add_merge.induct)
  case (1 a1 a2 p1 p2 pTop)
  note ge = merged_ge [OF "1.prems"(2,3,4,5)]
  show ?case
  proof (cases "pTop = p1")
    case True
    then have r: "r = a1" using "1.prems"(1) ge "1.prems"(6) by (subst (asm) add_merge.simps) simp
    from merged_eq_left [OF "1.prems"(2,4)] True "1.prems"(6)
    have "set (take p1 a1) \<union> set (take p2 a2) = set (take p1 a1)" by simp
    with r True "1.prems" show ?thesis by simp
  next
    case n1: False
    show ?thesis
    proof (cases "pTop = p2")
      case True
      then have r: "r = take pTop a2 @ drop pTop a1" and len: "pTop \<le> length a1"
        using "1.prems"(1) ge "1.prems"(6) n1
        by (subst (asm) add_merge.simps, simp split: if_splits)+
      from merged_eq_right [OF "1.prems"(3,5)] True "1.prems"(6)
      have u: "set (take p1 a1) \<union> set (take p2 a2) = set (take p2 a2)" by simp
      have "\<forall>k. pTop \<le> k \<and> k < length a1 \<longrightarrow> r ! k = a1 ! k"
        using r True "1.prems"(5) len by (auto simp add: nth_append)
      with r True "1.prems" u len show ?thesis by simp
    next
      case n2: False
      have lt: "p1 < pTop" "p2 < pTop" using ge "1.prems"(6) n1 n2 by simp_all
      define d1 where "d1 = a1 ! (p1 - 1)"
      define d2 where "d2 = a2 ! (p2 - 1)"
      define d where "d = (if d1 \<le> d2 then d2 else d1)"
      define q1 where "q1 = (if d2 \<le> d1 then p1 - 1 else p1)"
      define q2 where "q2 = (if d1 \<le> d2 then p2 - 1 else p2)"
      define b1 where "b1 = a1[pTop - 1 := d]"
      from "1.prems"(1) lt n1 n2 have
        pos: "0 < p1" "0 < p2" and len: "pTop \<le> length a1"
        and rec: "add_merge b1 a2 q1 q2 (pTop - 1) = Some r"
        unfolding d1_def d2_def d_def q1_def q2_def b1_def
        by (subst (asm) add_merge.simps, simp add: Let_def split: if_splits)+
      note st = merged_step_both [OF "1.prems"(2,3,4,5) pos d1_def d2_def q1_def q2_def d_def]
      have q1le: "q1 \<le> p1" and q2le: "q2 \<le> p2"
        by (simp_all add: q1_def q2_def)
      have tk: "take q1 b1 = take q1 a1" using lt q1le by (simp add: b1_def)
      have s1: "sorted_wrt (<) (take q1 b1)"
        unfolding tk using "1.prems"(2) take_last_sorted(3) [OF "1.prems"(2,4) pos(1)]
        by (simp add: q1_def)
      have s2: "sorted_wrt (<) (take q2 a2)"
        using "1.prems"(3) take_last_sorted(3) [OF "1.prems"(3,5) pos(2)]
        by (simp add: q2_def)
      have l1: "q1 \<le> length b1" and l2: "q2 \<le> length a2"
        using "1.prems"(4,5) q1le q2le by (simp_all add: b1_def)
      have m0: "merged b1 q1 a2 q2 = merged a1 q1 a2 q2"
        unfolding merged_def tk ..
      have m: "pTop - 1 = merged b1 q1 a2 q2"
        unfolding m0 using st(3) "1.prems"(6) by simp
      have guard: "\<not> (\<not> p1 \<le> pTop \<or> \<not> p2 \<le> pTop)" "pTop \<noteq> p1" "pTop \<noteq> p2"
        "\<not> (p1 = 0 \<or> p2 = 0 \<or> length a1 < p1 \<or> length a2 < p2 \<or> length a1 < pTop)"
        using lt n1 n2 pos len "1.prems"(4,5) by simp_all
      have ih: "length r = length a1" "sorted_wrt (<) (take (pTop - 1) r)"
        "set (take (pTop - 1) r) = set (take q1 a1) \<union> set (take q2 a2)"
        "\<forall>k. pTop - 1 \<le> k \<and> k < length a1 \<longrightarrow> r ! k = b1 ! k"
        using "1.IH" [OF guard d1_def d2_def d_def, folded q1_def q2_def b1_def, OF rec s1 s2 l1 l2 m]
        unfolding tk by (simp_all add: b1_def)
      let ?d = d
      have rd: "r ! (pTop - 1) = ?d" using ih(4) len lt by (simp add: b1_def)
      have tr: "take pTop r = take (pTop - 1) r @ [?d]"
      proof -
        have "take (Suc (pTop - 1)) r = take (pTop - 1) r @ [r ! (pTop - 1)]"
          using ih(1) len lt by (intro take_Suc_conv_app_nth) simp
        with rd lt show ?thesis by simp
      qed
      have "sorted_wrt (<) (take pTop r)"
        unfolding tr using ih(2,3) st(2) by (simp add: sorted_wrt_append)
      moreover have "set (take pTop r) = set (take p1 a1) \<union> set (take p2 a2)"
        unfolding tr using ih(3) st(1) by simp
      moreover have "\<forall>k. pTop \<le> k \<and> k < length a1 \<longrightarrow> r ! k = a1 ! k"
        using ih(4) lt by (auto simp add: b1_def)
      ultimately show ?thesis using ih(1) by simp
    qed
  qed
qed

lemma dim_ok_bound:
  assumes "dim_ok d"
  shows "m_cDivisions d \<le> length (m_aDivisions d)" and "8 * m_cDivisions d \<le> size_max"
  using assms by (simp_all add: dim_ok_def wf_dimension_def IsMultiplyError_def sizeof_TDivisions_def)

lemma sz_id: "n \<le> size_max \<Longrightarrow> sz n = n"
  by (simp add: sz_def size_max_def)

lemma add_count_union:
  assumes "dim_ok d1" "dim_ok d2"
  shows "add_count (m_aDivisions d1) (m_aDivisions d2) 0 (m_cDivisions d1) 0 (m_cDivisions d2) 0
       = Some (union_count d1 d2)"
proof -
  note b1 = dim_ok_bound [OF assms(1)] and b2 = dim_ok_bound [OF assms(2)]
  have "0 + (m_cDivisions d1 - 0) + (m_cDivisions d2 - 0) \<le> size_max"
    using b1(2) b2(2) by simp
  from add_count_eq [OF _ _ b1(1) b2(1) _ _ this] assms show ?thesis
    by (simp add: dim_ok_def union_count_def merged_def)
qed

lemma le_mult_segments: "c * (m_cDivisions d + 1) \<le> c * ((m_cDivisions d + 1) * segments ds)"
proof -
  have "1 \<le> segments ds" by (simp add: Suc_leI)
  from mult_le_mono2 [OF this, of "c * (m_cDivisions d + 1)"] show ?thesis
    by (simp only: mult_1_right mult.assoc)
qed

lemma add_first_result:
  assumes "add_first ds1 ds2 c1 c2 cn = Some (c1', c2', cn', st)"
    and "length ds1 = length ds2" "list_all dim_ok ds1" "list_all dim_ok ds2"
    and "c1 * segments ds1 \<le> size_max" "c2 * segments ds2 \<le> size_max"
  shows "c1' = c1 * segments ds1 \<and> c2' = c2 * segments ds2 \<and> cn' = cn * new_segments ds1 ds2
     \<and> st = map2 full_entry ds1 ds2"
  using assms
proof (induction ds1 ds2 c1 c2 cn arbitrary: c1' c2' cn' st rule: add_first.induct)
  case (1 ds2 cValues1 cValues2 cNewValues)
  then show ?case by simp
next
  case (2 pDimensionFirst1 ds1 cValues1 cValues2 cNewValues)
  then show ?case by simp
next
  case (3 d1 ds1 d2 ds2 c1 c2 cn)
  have ok: "dim_ok d1" "dim_ok d2" using "3.prems" by simp_all
  note cnt = add_count_union [OF ok]
  have w1: "sz (c1 * (m_cDivisions d1 + 1)) = c1 * (m_cDivisions d1 + 1)"
    using "3.prems"(5) le_mult_segments [of c1 d1 ds1] by (intro sz_id) simp
  have w2: "sz (c2 * (m_cDivisions d2 + 1)) = c2 * (m_cDivisions d2 + 1)"
    using "3.prems"(6) le_mult_segments [of c2 d2 ds2] by (intro sz_id) simp
  from "3.prems"(1) cnt obtain a b c s where
    rec: "add_first ds1 ds2 (sz (c1 * (m_cDivisions d1 + 1))) (sz (c2 * (m_cDivisions d2 + 1)))
            (cn * (union_count d1 d2 + 1)) = Some (a, b, c, s)"
    and noerr: "\<not> IsMultiplyError cn (union_count d1 d2 + 1)"
    and res: "c1' = a" "c2' = b" "cn' = c" "st = full_entry d1 d2 # s"
    by (auto simp add: Let_def full_entry_def split: option.splits if_splits)
  have b1: "sz (c1 * (m_cDivisions d1 + 1)) * segments ds1 \<le> size_max"
    and b2: "sz (c2 * (m_cDivisions d2 + 1)) * segments ds2 \<le> size_max"
    unfolding w1 w2 using "3.prems"(5,6) by (simp_all add: algebra_simps)
  have l: "length ds1 = length ds2" and o1: "list_all dim_ok ds1" and o2: "list_all dim_ok ds2"
    using "3.prems"(2,3,4) by simp_all
  have "a = sz (c1 * (m_cDivisions d1 + 1)) * segments ds1
      \<and> b = sz (c2 * (m_cDivisions d2 + 1)) * segments ds2
      \<and> c = cn * (union_count d1 d2 + 1) * new_segments ds1 ds2 \<and> s = map2 full_entry ds1 ds2"
    by (rule "3.IH" [OF refl refl cnt noerr rec l o1 o2 b1 b2])
  with res w1 w2 show ?case by (simp add: algebra_simps)
qed

lemma add_advance_frame:
  assumes "add_advance st ds1 ds2 m1 m2 p1 p2 = Some (st', p1', p2')"
  shows "length st' = length st \<and> map m_cNewDivisions st' = map m_cNewDivisions st"
  using assms
  by (induction st ds1 ds2 m1 m2 p1 p2 arbitrary: st' p1' p2' rule: add_advance.induct)
     (auto simp add: Let_def split: if_splits option.splits)

lemma add_loop_frame:
  assumes "add_loop L ds1 ds2 st p1 p2 pTop vs ws = Some (st', p1', p2', vs')"
  shows "length st' = length st \<and> map m_cNewDivisions st' = map m_cNewDivisions st"
  using assms
proof (induction L ds1 ds2 st p1 p2 pTop vs ws arbitrary: st' p1' p2' vs' rule: add_loop.induct)
  case (1 L ds1 ds2 st p1 p2 pTop vs ws)
  from "1.prems" show ?case
    apply (subst (asm) add_loop.simps)
    apply (simp split: if_splits option.splits prod.splits)
    using "1.IH" add_advance_frame apply fastforce
    done
qed

lemma realloc_length: "length (realloc xs n fresh) = n"
  by (simp add: realloc_def)

lemma realloc_take: "length xs \<le> n \<Longrightarrow> take (length xs) (realloc xs n fresh) = xs"
  by (auto simp add: realloc_def list_eq_iff_nth_eq)

lemma EnsureValueCapacity_success:
  assumes "EnsureValueCapacity h n t = Some (False, h', t')"
    and "length (m_aValues t) = m_cValueCapacity t"
  shows "m_aDimensions t' = m_aDimensions t \<and> m_cDimensions t' = m_cDimensions t
     \<and> m_cVectorLength t' = m_cVectorLength t
     \<and> n \<le> length (m_aValues t') \<and> length (m_aValues t) \<le> length (m_aValues t')
     \<and> take (length (m_aValues t)) (m_aValues t') = m_aValues t"
proof (cases "m_cValueCapacity t < n")
  case True
  have l: "length (m_aValues t) \<le> n + n div 2" using True assms(2) by simp
  obtain b h1 where r: "heap_request h = (b, h1)" by (cases "heap_request h")
  from assms(1) True r have
    "t' = t\<lparr>m_aValues := realloc (m_aValues t) (n + n div 2) (h_fresh_val h),
            m_cValueCapacity := n + n div 2\<rparr>"
    by (cases b) (simp_all add: EnsureValueCapacity_def Let_def split: if_splits)
  with realloc_take [OF l] l show ?thesis
    by (simp add: realloc_length)
next
  case False
  with assms show ?thesis by (simp add: EnsureValueCapacity_def)
qed

lemma SetCountDivisions_success:
  assumes "SetCountDivisions h i K t = Some (False, h', t')"
    and "wf_dimension (m_aDimensions t ! i)"
  shows "\<exists>a'. m_aDimensions t' = (m_aDimensions t)[i :=
            (m_aDimensions t ! i)\<lparr>m_aDivisions := a', m_cDivisionCapacity := length a', m_cDivisions := K\<rparr>]
     \<and> K \<le> length a'
     \<and> length (m_aDivisions (m_aDimensions t ! i)) \<le> length a'
     \<and> take (length (m_aDivisions (m_aDimensions t ! i))) a' = m_aDivisions (m_aDimensions t ! i)
     \<and> i < length (m_aDimensions t)
     \<and> m_aValues t' = m_aValues t \<and> m_cDimensions t' = m_cDimensions t
     \<and> m_cVectorLength t' = m_cVectorLength t"
proof -
  let ?old = "m_aDivisions (m_aDimensions t ! i)"
  have inb: "i < length (m_aDimensions t)"
    using assms(1) by (simp add: SetCountDivisions_def Let_def split: if_splits)
  have c: "length ?old = m_cDivisionCapacity (m_aDimensions t ! i)"
    using assms(2) by (simp add: wf_dimension_def)
  show ?thesis
  proof (cases "m_cDivisionCapacity (m_aDimensions t ! i) < K")
    case True
    have l: "length ?old \<le> K + K div 2" using True c by simp
    let ?a = "realloc ?old (K + K div 2) (h_fresh_div h)"
    obtain b h1 where r: "heap_request h = (b, h1)" by (cases "heap_request h")
    from assms(1) True r have t':
      "t' = t\<lparr>m_aDimensions := (m_aDimensions t)[i :=
            (m_aDimensions t ! i)\<lparr>m_aDivisions := ?a, m_cDivisionCapacity := K + K div 2, m_cDivisions := K\<rparr>]\<rparr>"
      by (cases b) (simp_all add: SetCountDivisions_def Let_def split: if_splits)
    show ?thesis
    proof (intro exI [of _ ?a] conjI)
      show "m_aDimensions t' = (m_aDimensions t)[i :=
            (m_aDimensions t ! i)\<lparr>m_aDivisions := ?a, m_cDivisionCapacity := length ?a, m_cDivisions := K\<rparr>]"
        unfolding t' by (simp add: realloc_length)
      show "K \<le> length ?a" by (simp add: realloc_length)
      show "length ?old \<le> length ?a" using l by (simp add: realloc_length)
      show "take (length ?old) ?a = ?old" by (rule realloc_take [OF l])
      show "i < length (m_aDimensions t)" by (rule inb)
      show "m_aValues t' = m_aValues t" "m_cDimensions t' = m_cDimensions t"
        "m_cVectorLength t' = m_cVectorLength t"
        unfolding t' by simp_all
    qed
  next
    case False
    from assms(1) False have t':
      "t' = t\<lparr>m_aDimensions := (m_aDimensions t)[i := (m_aDimensions t ! i)\<lparr>m_cDivisions := K\<rparr>]\<rparr>"
      by (simp add: SetCountDivisions_def Let_def split: if_splits)
    have e: "(m_aDimensions t ! i)\<lparr>m_aDivisions := ?old, m_cDivisionCapacity := length ?old, m_cDivisions := K\<rparr>
        = (m_aDimensions t ! i)\<lparr>m_cDivisions := K\<rparr>"
      unfolding c by simp
    show ?thesis
    proof (intro exI [of _ ?old] conjI)
      show "m_aDimensions t' = (m_aDimensions t)[i :=
            (m_aDimensions t ! i)\<lparr>m_aDivisions := ?old, m_cDivisionCapacity := length ?old, m_cDivisions := K\<rparr>]"
        unfolding e unfolding t' by simp
      show "K \<le> length ?old" using False c by simp
      show "length ?old \<le> length ?old" by simp
      show "take (length ?old) ?old = ?old" by simp
      show "i < length (m_aDimensions t)" by (rule inb)
      show "m_aValues t' = m_aValues t" "m_cDimensions t' = m_cDimensions t"
        "m_cVectorLength t' = m_cVectorLength t"
        unfolding t' by simp_all
    qed
  qed
qed

lemma add_divisions_result:
  assumes "add_divisions is st ds2 h t = Some (False, h', t')"
    and "distinct is"
    and "\<forall>i \<in> set is. dim_ok (m_aDimensions t ! i) \<and> dim_ok (ds2 ! i)
           \<and> m_cNewDivisions (st ! i) = union_count (m_aDimensions t ! i) (ds2 ! i)"
  shows "length (m_aDimensions t') = length (m_aDimensions t) \<and> m_aValues t' = m_aValues t
     \<and> m_cDimensions t' = m_cDimensions t \<and> m_cVectorLength t' = m_cVectorLength t
     \<and> (\<forall>i. i \<notin> set is \<longrightarrow> m_aDimensions t' ! i = m_aDimensions t ! i)
     \<and> (\<forall>i \<in> set is. merge_done (m_aDimensions t' ! i) (m_aDimensions t ! i) (ds2 ! i))"
  using assms
proof (induction "is" st ds2 h t arbitrary: h' t' rule: add_divisions.induct)
  case (1 dimensionStack aDimension2 h t)
  then show ?case by simp
next
  case (2 i rest st ds2 h t)
  let ?d1 = "m_aDimensions t ! i" and ?d2 = "ds2 ! i"
  let ?n = "m_cNewDivisions (st ! i)"
  have ok: "dim_ok ?d1" "dim_ok ?d2" and n: "?n = union_count ?d1 ?d2"
    using "2.prems"(3) by simp_all
  from "2.prems"(1) obtain h1 t1 r where
    inb: "i < length st" "i < length (m_aDimensions t)" "i < length ds2"
    and sc: "SetCountDivisions h i ?n t = Some (False, h1, t1)"
    and mg: "add_merge (m_aDivisions (m_aDimensions t1 ! i)) (m_aDivisions ?d2)
               (m_cDivisions ?d1) (m_cDivisions ?d2) ?n = Some r"
    and rec: "add_divisions rest st ds2 h1
               (t1\<lparr>m_aDimensions := (m_aDimensions t1)[i := (m_aDimensions t1 ! i)\<lparr>m_aDivisions := r\<rparr>]\<rparr>)
             = Some (False, h', t')"
    by (auto simp add: Let_def split: if_splits option.splits bool.splits)
  have wf1: "wf_dimension ?d1" using ok(1) by (simp add: dim_ok_def)
  from SetCountDivisions_success [OF sc wf1] obtain a' where
    t1: "m_aDimensions t1 = (m_aDimensions t)[i :=
            ?d1\<lparr>m_aDivisions := a', m_cDivisionCapacity := length a', m_cDivisions := ?n\<rparr>]"
    and a': "?n \<le> length a'" "length (m_aDivisions ?d1) \<le> length a'"
      "take (length (m_aDivisions ?d1)) a' = m_aDivisions ?d1"
    and o: "m_aValues t1 = m_aValues t" "m_cDimensions t1 = m_cDimensions t"
      "m_cVectorLength t1 = m_cVectorLength t"
    by blast
  have d1i: "m_aDivisions (m_aDimensions t1 ! i) = a'"
    using t1 inb(2) by simp
  note k1 = dim_ok_bound(1) [OF ok(1)] and k2 = dim_ok_bound(1) [OF ok(2)]
  have tk: "take (m_cDivisions ?d1) a' = take (m_cDivisions ?d1) (m_aDivisions ?d1)"
  proof -
    have "take (m_cDivisions ?d1) (take (length (m_aDivisions ?d1)) a') = take (m_cDivisions ?d1) a'"
      using k1 by (simp add: min_def)
    with a'(3) show ?thesis by simp
  qed
  have s1: "sorted_wrt (<) (take (m_cDivisions ?d1) a')"
    unfolding tk using ok(1) by (simp add: dim_ok_def)
  have s2: "sorted_wrt (<) (take (m_cDivisions ?d2) (m_aDivisions ?d2))"
    using ok(2) by (simp add: dim_ok_def)
  have l1: "m_cDivisions ?d1 \<le> length a'" using k1 a'(2) by simp
  have m: "?n = merged a' (m_cDivisions ?d1) (m_aDivisions ?d2) (m_cDivisions ?d2)"
    unfolding n union_count_def merged_def tk ..
  from add_merge_correct [OF mg [unfolded d1i] s1 s2 l1 k2 m]
  have r: "length r = length a'" "sorted_wrt (<) (take ?n r)"
    "set (take ?n r) = set (take (m_cDivisions ?d1) (m_aDivisions ?d1))
        \<union> set (take (m_cDivisions ?d2) (m_aDivisions ?d2))"
    unfolding tk by simp_all
  define dn where "dn = (?d1\<lparr>m_aDivisions := a', m_cDivisionCapacity := length a', m_cDivisions := ?n\<rparr>)
      \<lparr>m_aDivisions := r\<rparr>"
  define t2 where "t2 = t1\<lparr>m_aDimensions := (m_aDimensions t1)[i := (m_aDimensions t1 ! i)\<lparr>m_aDivisions := r\<rparr>]\<rparr>"
  have dn: "m_cDivisions dn = ?n" "m_aDivisions dn = r"
    by (simp_all add: dn_def)
  have t2: "m_aDimensions t2 = (m_aDimensions t)[i := dn]"
    and o2: "m_aValues t2 = m_aValues t" "m_cDimensions t2 = m_cDimensions t"
      "m_cVectorLength t2 = m_cVectorLength t"
    using t1 inb(2) o by (simp_all add: t2_def dn_def)
  have mdone: "merge_done dn ?d1 ?d2"
    unfolding merge_done_def dn using r a'(1) n by simp
  have ni: "i \<notin> set rest" and dr: "distinct rest" using "2.prems"(2) by simp_all
  have other: "m_aDimensions t2 ! j = m_aDimensions t ! j" if "j \<noteq> i" for j
    unfolding t2 using that by simp
  have self: "m_aDimensions t2 ! i = dn"
    unfolding t2 using inb(2) by simp
  have pre: "\<forall>j \<in> set rest. dim_ok (m_aDimensions t2 ! j) \<and> dim_ok (ds2 ! j)
           \<and> m_cNewDivisions (st ! j) = union_count (m_aDimensions t2 ! j) (ds2 ! j)"
  proof
    fix j assume j: "j \<in> set rest"
    then have "j \<noteq> i" using ni by blast
    from other [OF this] "2.prems"(3) j
    show "dim_ok (m_aDimensions t2 ! j) \<and> dim_ok (ds2 ! j)
           \<and> m_cNewDivisions (st ! j) = union_count (m_aDimensions t2 ! j) (ds2 ! j)"
      by simp
  qed
  have guard: "\<not> (\<not> i < length st \<or> \<not> i < length (m_aDimensions t) \<or> \<not> i < length ds2)"
    using inb by simp
  have ih: "length (m_aDimensions t') = length (m_aDimensions t2) \<and> m_aValues t' = m_aValues t2
     \<and> m_cDimensions t' = m_cDimensions t2 \<and> m_cVectorLength t' = m_cVectorLength t2
     \<and> (\<forall>j. j \<notin> set rest \<longrightarrow> m_aDimensions t' ! j = m_aDimensions t2 ! j)
     \<and> (\<forall>j \<in> set rest. merge_done (m_aDimensions t' ! j) (m_aDimensions t2 ! j) (ds2 ! j))"
    unfolding t2_def
    by (rule "2.IH" [OF guard refl refl sc refl refl refl refl refl mg rec dr pre [unfolded t2_def]])
  show ?case
  proof (intro conjI allI impI ballI)
    show "length (m_aDimensions t') = length (m_aDimensions t)" using ih t2 by simp
    show "m_aValues t' = m_aValues t" using ih o2 by simp
    show "m_cDimensions t' = m_cDimensions t" using ih o2 by simp
    show "m_cVectorLength t' = m_cVectorLength t" using ih o2 by simp
  next
    fix j assume "j \<notin> set (i # rest)"
    then have "j \<notin> set rest" "j \<noteq> i" by simp_all
    with ih other show "m_aDimensions t' ! j = m_aDimensions t ! j" by simp
  next
    fix j assume j: "j \<in> set (i # rest)"
    show "merge_done (m_aDimensions t' ! j) (m_aDimensions t ! j) (ds2 ! j)"
    proof (cases "j = i")
      case True
      have "m_aDimensions t' ! i = dn" using ih ni self by simp
      with mdone True show ?thesis by simp
    next
      case False
      then have jr: "j \<in> set rest" using j by simp
      with ih have "merge_done (m_aDimensions t' ! j) (m_aDimensions t2 ! j) (ds2 ! j)" by blast
      with other [OF False] show ?thesis by simp
    qed
  qed
qed

lemma Add_parts:
  assumes "Add h A B = Some (False, h', A')" and "0 < m_cDimensions A"
  obtains c1 c2 cn st h1 t1 st' p1 p2 vs' where
    "m_cDimensions B = m_cDimensions A"
    "m_cDimensions A \<le> length (m_aDimensions A)" "m_cDimensions A \<le> length (m_aDimensions B)"
    "add_first (take (m_cDimensions A) (m_aDimensions A)) (take (m_cDimensions A) (m_aDimensions B)) 1 1 1
       = Some (c1, c2, cn, st)"
    "\<not> IsMultiplyError cn (m_cVectorLength A)"
    "EnsureValueCapacity h (cn * m_cVectorLength A) A = Some (False, h1, t1)"
    "add_loop (m_cVectorLength t1) (m_aDimensions t1) (m_aDimensions B) st
       (sz (m_cVectorLength t1 * c1)) (sz (m_cVectorLength t1 * c2)) (m_cVectorLength t1 * cn)
       (m_aValues t1) (m_aValues B) = Some (st', p1, p2, vs')"
    "p1 = m_cVectorLength t1" "p2 = m_cVectorLength t1"
    "add_divisions [0..<m_cDimensions t1] st' (m_aDimensions B) h1 (t1\<lparr>m_aValues := vs'\<rparr>)
       = Some (False, h', A')"
proof -
  from assms have d: "m_cDimensions B = m_cDimensions A"
    and l: "m_cDimensions A \<le> length (m_aDimensions A)" "m_cDimensions A \<le> length (m_aDimensions B)"
    by (auto simp add: Add_def split: if_splits)
  from assms d l obtain c1 c2 cn st where
    f: "add_first (take (m_cDimensions A) (m_aDimensions A)) (take (m_cDimensions A) (m_aDimensions B)) 1 1 1
       = Some (c1, c2, cn, st)"
    by (cases "add_first (take (m_cDimensions A) (m_aDimensions A)) (take (m_cDimensions A) (m_aDimensions B)) 1 1 1")
       (auto simp add: Add_def)
  from assms d l f have m: "\<not> IsMultiplyError cn (m_cVectorLength A)"
    by (auto simp add: Add_def split: if_splits)
  from assms d l f m obtain h1 t1 where
    e: "EnsureValueCapacity h (cn * m_cVectorLength A) A = Some (False, h1, t1)"
    by (cases "EnsureValueCapacity h (cn * m_cVectorLength A) A")
       (auto simp add: Add_def split: bool.splits)
  from assms d l f m e obtain st' p1 p2 vs' where
    lp: "add_loop (m_cVectorLength t1) (m_aDimensions t1) (m_aDimensions B) st
       (sz (m_cVectorLength t1 * c1)) (sz (m_cVectorLength t1 * c2)) (m_cVectorLength t1 * cn)
       (m_aValues t1) (m_aValues B) = Some (st', p1, p2, vs')"
    by (cases "add_loop (m_cVectorLength t1) (m_aDimensions t1) (m_aDimensions B) st
       (sz (m_cVectorLength t1 * c1)) (sz (m_cVectorLength t1 * c2)) (m_cVectorLength t1 * cn)
       (m_aValues t1) (m_aValues B)")
       (auto simp add: Add_def)
  from assms d l f m e lp have
    p: "p1 = m_cVectorLength t1" "p2 = m_cVectorLength t1"
    and dv: "add_divisions [0..<m_cDimensions t1] st' (m_aDimensions B) h1 (t1\<lparr>m_aValues := vs'\<rparr>)
       = Some (False, h', A')"
    by (auto simp add: Add_def split: if_splits)
  from d l f m e lp p dv show ?thesis by (rule that)
qed

lemma Add_zero_dims:
  assumes "m_cDimensions A = 0" and "Add h A B = Some (False, h', A')"
  shows "\<exists>vs. A' = A\<lparr>m_aValues := vs\<rparr>
     \<and> add_zero (m_cVectorLength A) 0 (m_aValues A) (m_aValues B) = Some vs"
proof (cases "add_zero (m_cVectorLength A) 0 (m_aValues A) (m_aValues B)")
  case None
  with assms show ?thesis by (simp add: Add_def split: if_splits)
next
  case (Some vs)
  with assms have "A' = A\<lparr>m_aValues := vs\<rparr>"
    by (simp add: Add_def split: if_splits)
  with Some show ?thesis by simp
qed

lemma wf_tensor_dim_ok:
  assumes "wf_tensor t" "increasing_divisions t"
  shows "list_all dim_ok (take (m_cDimensions t) (m_aDimensions t))"
  using assms by (auto simp add: wf_tensor_def increasing_divisions_def dim_ok_def list_all_iff)

lemma wf_tensor_segments:
  assumes "wf_tensor t"
  shows "segments (take (m_cDimensions t) (m_aDimensions t)) \<le> size_max"
    and "m_cVectorLength t * segments (take (m_cDimensions t) (m_aDimensions t)) \<le> size_max"
proof -
  let ?s = "segments (take (m_cDimensions t) (m_aDimensions t))"
  show b: "m_cVectorLength t * ?s \<le> size_max"
    using assms by (simp add: wf_tensor_def count_values_segments)
  have "1 \<le> m_cVectorLength t" using assms by (simp add: wf_tensor_def)
  then have "?s \<le> m_cVectorLength t * ?s" by (cases "m_cVectorLength t") simp_all
  from this b show "?s \<le> size_max" by (rule order_trans)
qed

text \<open>
  C4. A successful \<open>A.Add(B)\<close> on well-formed operands whose divisions are strictly
  increasing in every dimension keeps the dimension count, and leaves in every dimension a
  strictly increasing division sequence: the sorted union of the division points of the two
  operands in that dimension.
\<close>

theorem Add_divisions_sorted_union:
  assumes "Add h A B = Some (False, h', A')"
    and "wf_tensor A" "wf_tensor B"
    and "increasing_divisions A" "increasing_divisions B"
  shows "m_cDimensions A' = m_cDimensions A
     \<and> (\<forall>i < m_cDimensions A.
           sorted_wrt (<) (divisions_of A' i)
         \<and> divisions_of A' i = sorted_list_of_set (set (divisions_of A i) \<union> set (divisions_of B i)))"
proof (cases "0 < m_cDimensions A")
  case False
  then have z: "m_cDimensions A = 0" by simp
  from Add_zero_dims [OF z assms(1)] obtain vs where "A' = A\<lparr>m_aValues := vs\<rparr>"
    by blast
  with z show ?thesis by simp
next
  case True
  let ?D = "m_cDimensions A"
  let ?ds1 = "take ?D (m_aDimensions A)" and ?ds2 = "take ?D (m_aDimensions B)"
  from assms(1) True obtain c1 c2 cn st h1 t1 st' p1 p2 vs' where
    d: "m_cDimensions B = ?D"
    and l: "?D \<le> length (m_aDimensions A)" "?D \<le> length (m_aDimensions B)"
    and f: "add_first ?ds1 ?ds2 1 1 1 = Some (c1, c2, cn, st)"
    and m: "\<not> IsMultiplyError cn (m_cVectorLength A)"
    and e: "EnsureValueCapacity h (cn * m_cVectorLength A) A = Some (False, h1, t1)"
    and lp: "add_loop (m_cVectorLength t1) (m_aDimensions t1) (m_aDimensions B) st
       (sz (m_cVectorLength t1 * c1)) (sz (m_cVectorLength t1 * c2)) (m_cVectorLength t1 * cn)
       (m_aValues t1) (m_aValues B) = Some (st', p1, p2, vs')"
    and p: "p1 = m_cVectorLength t1" "p2 = m_cVectorLength t1"
    and dv: "add_divisions [0..<m_cDimensions t1] st' (m_aDimensions B) h1 (t1\<lparr>m_aValues := vs'\<rparr>)
       = Some (False, h', A')"
    by (rule Add_parts)
  have ok1: "list_all dim_ok ?ds1" using wf_tensor_dim_ok [OF assms(2,4)] .
  have ok2: "list_all dim_ok ?ds2" using wf_tensor_dim_ok [OF assms(3,5)] d by simp
  have len: "length ?ds1 = length ?ds2" using l by simp
  have b1: "1 * segments ?ds1 \<le> size_max" using wf_tensor_segments(1) [OF assms(2)] by simp
  have b2: "1 * segments ?ds2 \<le> size_max" using wf_tensor_segments(1) [OF assms(3)] d by simp
  from add_first_result [OF f len ok1 ok2 b1 b2] have st: "st = map2 full_entry ?ds1 ?ds2" by simp
  have vcap: "length (m_aValues A) = m_cValueCapacity A" using assms(2) by (simp add: wf_tensor_def)
  from EnsureValueCapacity_success [OF e vcap] have
    t1: "m_aDimensions t1 = m_aDimensions A" "m_cDimensions t1 = ?D" by simp_all
  from add_loop_frame [OF lp] have
    fr: "length st' = length st" "map m_cNewDivisions st' = map m_cNewDivisions st" by simp_all
  have stlen: "length st = ?D" using st l by simp
  have pre: "\<forall>i \<in> set [0..<?D]. dim_ok (m_aDimensions (t1\<lparr>m_aValues := vs'\<rparr>) ! i) \<and> dim_ok (m_aDimensions B ! i)
           \<and> m_cNewDivisions (st' ! i)
             = union_count (m_aDimensions (t1\<lparr>m_aValues := vs'\<rparr>) ! i) (m_aDimensions B ! i)"
  proof
    fix i assume "i \<in> set [0..<?D]"
    then have i: "i < ?D" by simp
    have n1: "?ds1 ! i = m_aDimensions A ! i" and n2: "?ds2 ! i = m_aDimensions B ! i"
      using i by simp_all
    have "dim_ok (?ds1 ! i)" using ok1 i l by (simp add: list_all_length)
    then have o1: "dim_ok (m_aDimensions A ! i)" using n1 by simp
    have "dim_ok (?ds2 ! i)" using ok2 i l by (simp add: list_all_length)
    then have o2: "dim_ok (m_aDimensions B ! i)" using n2 by simp
    have "m_cNewDivisions (st' ! i) = map m_cNewDivisions st' ! i"
      using i fr(1) stlen by simp
    also have "\<dots> = m_cNewDivisions (st ! i)"
      unfolding fr(2) using i stlen by simp
    also have "\<dots> = union_count (m_aDimensions A ! i) (m_aDimensions B ! i)"
      unfolding st using i l by (simp add: full_entry_def)
    finally show "dim_ok (m_aDimensions (t1\<lparr>m_aValues := vs'\<rparr>) ! i) \<and> dim_ok (m_aDimensions B ! i)
           \<and> m_cNewDivisions (st' ! i)
             = union_count (m_aDimensions (t1\<lparr>m_aValues := vs'\<rparr>) ! i) (m_aDimensions B ! i)"
      using o1 o2 t1 by simp
  qed
  from add_divisions_result [OF dv [unfolded t1] distinct_upt pre] have
    res: "m_cDimensions A' = ?D"
    "\<forall>i \<in> set [0..<?D]. merge_done (m_aDimensions A' ! i) (m_aDimensions A ! i) (m_aDimensions B ! i)"
    using t1 by simp_all
  show ?thesis
  proof (intro conjI allI impI)
    show "m_cDimensions A' = ?D" by (rule res(1))
  next
    fix i assume i: "i < ?D"
    with res(2) have md: "merge_done (m_aDimensions A' ! i) (m_aDimensions A ! i) (m_aDimensions B ! i)"
      by simp
    then show s: "sorted_wrt (<) (divisions_of A' i)"
      unfolding merge_done_def divisions_of_def by blast
    from md have u: "set (divisions_of A' i) = set (divisions_of A i) \<union> set (divisions_of B i)"
      unfolding merge_done_def divisions_of_def by blast
    have "sorted (divisions_of A' i)" "distinct (divisions_of A' i)"
      using s by (simp_all add: strict_sorted_iff)
    moreover have "sorted (sorted_list_of_set (set (divisions_of A i) \<union> set (divisions_of B i)))"
      "distinct (sorted_list_of_set (set (divisions_of A i) \<union> set (divisions_of B i)))"
      by simp_all
    moreover have "set (divisions_of A' i)
        = set (sorted_list_of_set (set (divisions_of A i) \<union> set (divisions_of B i)))"
      using u by simp
    ultimately show "divisions_of A' i
        = sorted_list_of_set (set (divisions_of A i) \<union> set (divisions_of B i))"
      by (rule sorted_distinct_set_unique)
  qed
qed

theorem Add_divisions_sorted_union_witness:
  "\<exists>h' A'. Add heap_ok scenario_D_A scenario_D_B = Some (False, h', A')
     \<and> sorted_wrt (<) (divisions_of A' 0)
     \<and> divisions_of A' 0
         = sorted_list_of_set (set (divisions_of scenario_D_A 0) \<union> set (divisions_of scenario_D_B 0))
     \<and> sorted_wrt (<) (divisions_of A' 1)
     \<and> divisions_of A' 1
         = sorted_list_of_set (set (divisions_of scenario_D_A 1) \<union> set (divisions_of scenario_D_B 1))"
proof -
  have "\<exists>h' A'. Add heap_ok scenario_D_A scenario_D_B = Some (False, h', A')"
    by (simp add: Add_def size_simps alloc_simps Let_def add_copy.simps
        add_loop.simps add_count.simps add_merge.simps upt_rec scenario_D_A_def scenario_D_B_def
        heap_ok_def)
  then obtain h' A' where a: "Add heap_ok scenario_D_A scenario_D_B = Some (False, h', A')"
    by blast
  have wf: "wf_tensor scenario_D_A" "wf_tensor scenario_D_B"
    by (simp_all add: wf_tensor_def wf_dimension_def count_values_def size_simps
        scenario_D_A_def scenario_D_B_def)
  have inc: "increasing_divisions scenario_D_A" "increasing_divisions scenario_D_B"
    by (simp_all add: increasing_divisions_def scenario_D_A_def scenario_D_B_def)
  have d: "m_cDimensions scenario_D_A = 2"
    by (simp add: scenario_D_A_def)
  from Add_divisions_sorted_union [OF a wf inc] have
    "\<forall>i < 2. sorted_wrt (<) (divisions_of A' i)
         \<and> divisions_of A' i
             = sorted_list_of_set (set (divisions_of scenario_D_A i) \<union> set (divisions_of scenario_D_B i))"
    unfolding d by simp
  then have "sorted_wrt (<) (divisions_of A' 0)
     \<and> divisions_of A' 0
         = sorted_list_of_set (set (divisions_of scenario_D_A 0) \<union> set (divisions_of scenario_D_B 0))"
    and "sorted_wrt (<) (divisions_of A' 1)
     \<and> divisions_of A' 1
         = sorted_list_of_set (set (divisions_of scenario_D_A 1) \<union> set (divisions_of scenario_D_B 1))"
    by simp_all
  with a show ?thesis by blast
qed

subsection \<open>Add is commutative\<close>

text \<open>
  Exchanging the operands exchanges the two cursors of every stack entry and the two
  positions, step by step.
\<close>

lemma add_advance_swap:
  "add_advance (map swap_entry st) ds2 ds1 m2 m1 pv2 pv1
     = map_option (\<lambda>(st', a, b). (map swap_entry st', b, a)) (add_advance st ds1 ds2 m1 m2 pv1 pv2)"
proof (induction st ds1 ds2 m1 m2 pv1 pv2 rule: add_advance.induct)
  case (1 ds1 ds2 multiplication1 multiplication2 pValue1 pValue2)
  then show ?case by simp
next
  case (2 s st ds2 multiplication1 multiplication2 pValue1 pValue2)
  then show ?case by (cases ds2) simp_all
next
  case (3 s st pDimensionSecond1 ds1 multiplication1 multiplication2 pValue1 pValue2)
  then show ?case by simp
next
  case (4 s st d1 ds1 d2 ds2 m1 m2 pv1 pv2)
  show ?case
  proof (cases "0 < m_pDivision1 s")
    case p1: True
    show ?thesis
    proof (cases "0 < m_pDivision2 s")
      case p2: True
      with p1 show ?thesis
        by (auto simp add: Let_def swap_entry_def)
    next
      case p2: False
      with p1 show ?thesis
        by (simp add: Let_def swap_entry_def)
    qed
  next
    case p1: False
    show ?thesis
    proof (cases "0 < m_pDivision2 s")
      case p2: True
      with p1 show ?thesis
        by (simp add: Let_def swap_entry_def)
    next
      case p2: False
      with p1 "4.IH" show ?thesis
        by (auto simp add: Let_def swap_entry_def split: option.splits)
    qed
  qed
qed

text \<open>
  What one pass of the copy loop writes: the cells from \<open>pValueTopEnd\<close> up to \<open>pValueTop\<close>,
  each the sum of a cell of this tensor and a cell of \<open>rhs\<close>; the cells it reads lie
  below the ones it has written as long as \<open>pValue1\<close> is not above \<open>pValueTop\<close>.
\<close>

lemma add_copy_result:
  assumes "add_copy e m1 m2 t vs ws = Some vs'" and "e < t" and "m1 \<le> t"
  shows "length vs' = length vs \<and> (\<forall>k. k < e \<or> t \<le> k \<longrightarrow> vs' ! k = vs ! k)
     \<and> (\<forall>k. e \<le> k \<and> k < t \<longrightarrow> vs' ! k = vs ! (m1 - (t - k)) + ws ! (m2 - (t - k)))"
  using assms
proof (induction e m1 m2 t vs ws arbitrary: vs' rule: add_copy.induct)
  case (1 e m1 m2 t vs ws)
  let ?u = "vs[t - 1 := vs ! (m1 - 1) + ws ! (m2 - 1)]"
  from "1.prems"(1) have g: "0 < m1" "0 < m2" "0 < t" "m1 \<le> length vs" "m2 \<le> length ws" "t \<le> length vs"
    by (subst (asm) add_copy.simps, simp split: if_splits)+
  show ?case
  proof (cases "e = t - 1")
    case True
    with "1.prems"(1) g have r: "vs' = ?u"
      by (subst (asm) add_copy.simps) (simp add: Let_def)
    have "\<forall>k. e \<le> k \<and> k < t \<longrightarrow> k = t - 1" using True by auto
    with r g True show ?thesis by auto
  next
    case False
    with "1.prems"(1) g have rec: "add_copy e (m1 - 1) (m2 - 1) (t - 1) ?u ws = Some vs'"
      by (subst (asm) add_copy.simps) (simp add: Let_def)
    have n: "\<not> (m1 = 0 \<or> m2 = 0 \<or> t = 0 \<or> length vs < m1 \<or> length ws < m2 \<or> length vs < t)"
      using g by simp
    have e: "e < t - 1" using False "1.prems"(2) by simp
    have m: "m1 - 1 \<le> t - 1" using "1.prems"(3) by simp
    from "1.IH" [OF n refl False rec e m] have
      ih: "length vs' = length ?u" "\<forall>k. k < e \<or> t - 1 \<le> k \<longrightarrow> vs' ! k = ?u ! k"
      "\<forall>k. e \<le> k \<and> k < t - 1 \<longrightarrow> vs' ! k = ?u ! (m1 - 1 - (t - 1 - k)) + ws ! (m2 - 1 - (t - 1 - k))"
      by blast+
    show ?thesis
    proof (intro conjI allI impI)
      show "length vs' = length vs" using ih(1) by simp
    next
      fix k assume "k < e \<or> t \<le> k"
      then have "k < e \<or> t - 1 \<le> k" "k \<noteq> t - 1" using e by auto
      with ih(2) [rule_format, of k] show "vs' ! k = vs ! k" by simp
    next
      fix k assume k: "e \<le> k \<and> k < t"
      show "vs' ! k = vs ! (m1 - (t - k)) + ws ! (m2 - (t - k))"
      proof (cases "k = t - 1")
        case True
        then have "vs' ! k = ?u ! k" using ih(2) by simp
        also have "\<dots> = vs ! (m1 - 1) + ws ! (m2 - 1)" using True g by simp
        finally show ?thesis using True g by simp
      next
        case False
        with k have k': "e \<le> k \<and> k < t - 1" by arith
        have a1: "m1 - 1 - (t - 1 - k) = m1 - (t - k)" using k' by arith
        have a2: "m2 - 1 - (t - 1 - k) = m2 - (t - k)" using k' by arith
        have "m1 - (t - k) \<noteq> t - 1" using k' "1.prems"(3) by arith
        then have "?u ! (m1 - (t - k)) = vs ! (m1 - (t - k))" by simp
        with ih(3) k' a1 a2 show ?thesis by simp
      qed
    qed
  qed
qed

lemma entry_ok_cursors:
  assumes "entry_ok (s, d1, d2)"
  shows "sorted_wrt (<) (take (m_pDivision1 s) (m_aDivisions d1))"
    and "sorted_wrt (<) (take (m_pDivision2 s) (m_aDivisions d2))"
    and "m_pDivision1 s \<le> length (m_aDivisions d1)"
    and "m_pDivision2 s \<le> length (m_aDivisions d2)"
proof -
  from assms have k: "m_pDivision1 s \<le> m_cDivisions d1" "m_pDivision2 s \<le> m_cDivisions d2"
    and s: "sorted_wrt (<) (take (m_cDivisions d1) (m_aDivisions d1))"
      "sorted_wrt (<) (take (m_cDivisions d2) (m_aDivisions d2))"
    and l: "m_cDivisions d1 \<le> length (m_aDivisions d1)" "m_cDivisions d2 \<le> length (m_aDivisions d2)"
    by (simp_all add: entry_ok_def dim_ok_def wf_dimension_def)
  have "sorted_wrt (<) (take (m_pDivision1 s) (take (m_cDivisions d1) (m_aDivisions d1)))"
    using s(1) by (rule sorted_wrt_take)
  then show "sorted_wrt (<) (take (m_pDivision1 s) (m_aDivisions d1))"
    using k(1) by (simp add: min_absorb1)
  have "sorted_wrt (<) (take (m_pDivision2 s) (take (m_cDivisions d2) (m_aDivisions d2)))"
    using s(2) by (rule sorted_wrt_take)
  then show "sorted_wrt (<) (take (m_pDivision2 s) (m_aDivisions d2))"
    using k(2) by (simp add: min_absorb1)
  show "m_pDivision1 s \<le> length (m_aDivisions d1)" using k(1) l(1) by simp
  show "m_pDivision2 s \<le> length (m_aDivisions d2)" using k(2) l(2) by simp
qed

lemma add_advance_rank:
  assumes "add_advance st ds1 ds2 m1 m2 pv1 pv2 = Some (st', pv1', pv2')"
    and "list_all entry_ok (zip st (zip ds1 ds2))"
    and "pv1 = m1 + rank1 m1 (zip st (zip ds1 ds2))"
    and "pv2 = m2 + rank2 m2 (zip st (zip ds1 ds2))"
  shows "list_all entry_ok (zip st' (zip ds1 ds2))
     \<and> pv1' = m1 + rank1 m1 (zip st' (zip ds1 ds2))
     \<and> pv2' = m2 + rank2 m2 (zip st' (zip ds1 ds2))
     \<and> (\<forall>mT. rankT mT (zip st' (zip ds1 ds2)) + mT = rankT mT (zip st (zip ds1 ds2)))"
  using assms
proof (induction st ds1 ds2 m1 m2 pv1 pv2 arbitrary: st' pv1' pv2' rule: add_advance.induct)
  case (4 s st d1 ds1 d2 ds2 m1 m2 pv1 pv2)
  let ?zs = "zip st (zip ds1 ds2)"
  from "4.prems"(2) have ok: "entry_ok (s, d1, d2)" and oks: "list_all entry_ok ?zs" by simp_all
  note c = entry_ok_cursors [OF ok]
  from ok have k: "m_pDivision1 s \<le> m_cDivisions d1" "m_pDivision2 s \<le> m_cDivisions d2"
    and dk: "dim_ok d1" "dim_ok d2"
    by (simp_all add: entry_ok_def)
  have pv1: "pv1 = m1 + (m_pDivision1 s * m1 + rank1 (m1 * (m_cDivisions d1 + 1)) ?zs)"
    using "4.prems"(3) by simp
  have pv2: "pv2 = m2 + (m_pDivision2 s * m2 + rank2 (m2 * (m_cDivisions d2 + 1)) ?zs)"
    using "4.prems"(4) by simp
  show ?case
  proof (cases "0 < m_pDivision1 s")
    case p1: True
    show ?thesis
    proof (cases "0 < m_pDivision2 s")
      case p2: True
      define e1 where "e1 = m_aDivisions d1 ! (m_pDivision1 s - 1)"
      define e2 where "e2 = m_aDivisions d2 ! (m_pDivision2 s - 1)"
      define q1 where "q1 = (if e2 \<le> e1 then m_pDivision1 s - 1 else m_pDivision1 s)"
      define q2 where "q2 = (if e1 \<le> e2 then m_pDivision2 s - 1 else m_pDivision2 s)"
      from "4.prems"(1) p1 p2 c have
        r: "st' = s\<lparr>m_pDivision1 := q1, m_pDivision2 := q2\<rparr> # st"
        "pv1' = (if e2 \<le> e1 then pv1 - m1 else pv1)" "pv2' = (if e1 \<le> e2 then pv2 - m2 else pv2)"
        by (auto simp add: Let_def e1_def e2_def q1_def q2_def split: if_splits)
      have mg: "merged (m_aDivisions d1) q1 (m_aDivisions d2) q2 + 1
          = merged (m_aDivisions d1) (m_pDivision1 s) (m_aDivisions d2) (m_pDivision2 s)"
        by (rule merged_step_both(3) [OF c(1,2,3,4) p1 p2 e1_def e2_def q1_def q2_def refl])
      have q: "q1 \<le> m_cDivisions d1" "q2 \<le> m_cDivisions d2" using k by (auto simp add: q1_def q2_def)
      have a1: "pv1' = m1 + (q1 * m1 + rank1 (m1 * (m_cDivisions d1 + 1)) ?zs)"
      proof (cases "e2 \<le> e1")
        case True
        then have "q1 + 1 = m_pDivision1 s" using p1 by (simp add: q1_def)
        then have "m_pDivision1 s * m1 = q1 * m1 + m1" by (metis add_mult_distrib mult_1)
        with True r(2) pv1 show ?thesis by simp
      next
        case False
        with r(2) pv1 show ?thesis by (simp add: q1_def)
      qed
      have a2: "pv2' = m2 + (q2 * m2 + rank2 (m2 * (m_cDivisions d2 + 1)) ?zs)"
      proof (cases "e1 \<le> e2")
        case True
        then have "q2 + 1 = m_pDivision2 s" using p2 by (simp add: q2_def)
        then have "m_pDivision2 s * m2 = q2 * m2 + m2" by (metis add_mult_distrib mult_1)
        with True r(3) pv2 show ?thesis by simp
      next
        case False
        with r(3) pv2 show ?thesis by (simp add: q2_def)
      qed
      have a3: "\<And>mT. merged (m_aDivisions d1) q1 (m_aDivisions d2) q2 * mT + mT
          = merged (m_aDivisions d1) (m_pDivision1 s) (m_aDivisions d2) (m_pDivision2 s) * mT"
        unfolding mg [symmetric] by simp
      have h: "entry_ok (s\<lparr>m_pDivision1 := q1, m_pDivision2 := q2\<rparr>, d1, d2)"
        using q dk by (simp add: entry_ok_def)
      show ?thesis
        unfolding r(1) using oks h a1 a2 a3 by (simp add: add.assoc add.left_commute)
    next
      case p2: False
      from "4.prems"(1) p1 p2 have
        r: "st' = s\<lparr>m_pDivision1 := m_pDivision1 s - 1\<rparr> # st" "pv1' = pv1 - m1" "pv2' = pv2"
        by (auto simp add: Let_def split: if_splits)
      from p2 have z: "m_pDivision2 s = 0" by simp
      have mg: "merged (m_aDivisions d1) (m_pDivision1 s - 1) (m_aDivisions d2) 0 + 1
          = merged (m_aDivisions d1) (m_pDivision1 s) (m_aDivisions d2) 0"
        by (rule merged_step_left [OF c(1) c(3) p1])
      have "(m_pDivision1 s - 1) + 1 = m_pDivision1 s" using p1 by simp
      then have "m_pDivision1 s * m1 = (m_pDivision1 s - 1) * m1 + m1"
        by (metis add_mult_distrib mult_1)
      with r(2) pv1 have
        a1: "pv1' = m1 + ((m_pDivision1 s - 1) * m1 + rank1 (m1 * (m_cDivisions d1 + 1)) ?zs)"
        by simp
      have a3: "\<And>mT. merged (m_aDivisions d1) (m_pDivision1 s - 1) (m_aDivisions d2) 0 * mT + mT
          = merged (m_aDivisions d1) (m_pDivision1 s) (m_aDivisions d2) 0 * mT"
        unfolding mg [symmetric] by simp
      have h: "entry_ok (s\<lparr>m_pDivision1 := m_pDivision1 s - 1\<rparr>, d1, d2)"
        using k dk by (simp add: entry_ok_def)
      show ?thesis
        unfolding r(1) using oks h a1 a3 pv2 r(3) z
        by (simp add: add.assoc add.left_commute)
    qed
  next
    case p1: False
    then have z1: "m_pDivision1 s = 0" by simp
    show ?thesis
    proof (cases "0 < m_pDivision2 s")
      case p2: True
      from "4.prems"(1) p1 p2 have
        r: "st' = s\<lparr>m_pDivision2 := m_pDivision2 s - 1\<rparr> # st" "pv1' = pv1" "pv2' = pv2 - m2"
        by (auto simp add: Let_def split: if_splits)
      have mg: "merged (m_aDivisions d1) 0 (m_aDivisions d2) (m_pDivision2 s - 1) + 1
          = merged (m_aDivisions d1) 0 (m_aDivisions d2) (m_pDivision2 s)"
        by (rule merged_step_right [OF c(2) c(4) p2])
      have "(m_pDivision2 s - 1) + 1 = m_pDivision2 s" using p2 by simp
      then have "m_pDivision2 s * m2 = (m_pDivision2 s - 1) * m2 + m2"
        by (metis add_mult_distrib mult_1)
      with r(3) pv2 have
        a2: "pv2' = m2 + ((m_pDivision2 s - 1) * m2 + rank2 (m2 * (m_cDivisions d2 + 1)) ?zs)"
        by simp
      have a3: "\<And>mT. merged (m_aDivisions d1) 0 (m_aDivisions d2) (m_pDivision2 s - 1) * mT + mT
          = merged (m_aDivisions d1) 0 (m_aDivisions d2) (m_pDivision2 s) * mT"
        unfolding mg [symmetric] by simp
      have h: "entry_ok (s\<lparr>m_pDivision2 := m_pDivision2 s - 1\<rparr>, d1, d2)"
        using k dk by (simp add: entry_ok_def)
      show ?thesis
        unfolding r(1) using oks h a2 a3 pv1 r(2) z1
        by (simp add: add.assoc add.left_commute)
    next
      case p2: False
      then have z2: "m_pDivision2 s = 0" by simp
      define n1 where "n1 = m1 * (1 + m_cDivisions d1)"
      define n2 where "n2 = m2 * (1 + m_cDivisions d2)"
      from "4.prems"(1) p1 p2 have g: "\<not> (pv1 < m1 \<or> pv2 < m2)"
        "\<not> (IsMultiplyError m1 (1 + m_cDivisions d1) \<or> IsMultiplyError m2 (1 + m_cDivisions d2))"
        by (auto simp add: Let_def split: if_splits)
      from "4.prems"(1) p1 p2 g obtain st2 where
        rec: "add_advance st ds1 ds2 n1 n2 (pv1 - m1 + n1) (pv2 - m2 + n2) = Some (st2, pv1', pv2')"
        and r: "st' = s\<lparr>m_pDivision1 := m_cDivisions d1, m_pDivision2 := m_cDivisions d2\<rparr> # st2"
        by (auto simp add: Let_def n1_def n2_def split: if_splits option.splits)
      have i1: "pv1 - m1 + n1 = n1 + rank1 n1 ?zs" using pv1 z1 by (simp add: n1_def)
      have i2: "pv2 - m2 + n2 = n2 + rank2 n2 ?zs" using pv2 z2 by (simp add: n2_def)
      from "4.IH" [OF refl refl refl refl p1 p2 g(1) refl refl refl refl g(2) n1_def n2_def
          refl refl rec oks i1 i2]
      have ih: "list_all entry_ok (zip st2 (zip ds1 ds2))"
        "pv1' = n1 + rank1 n1 (zip st2 (zip ds1 ds2))"
        "pv2' = n2 + rank2 n2 (zip st2 (zip ds1 ds2))"
        "\<And>mT. rankT mT (zip st2 (zip ds1 ds2)) + mT = rankT mT ?zs"
        by simp_all
      define U where "U = union_count d1 d2"
      have h: "entry_ok (s\<lparr>m_pDivision1 := m_cDivisions d1, m_pDivision2 := m_cDivisions d2\<rparr>, d1, d2)"
        using dk by (simp add: entry_ok_def)
      have m0: "merged (m_aDivisions d1) 0 (m_aDivisions d2) 0 = 0" by (simp add: merged_def)
      have mU: "merged (m_aDivisions d1) (m_cDivisions d1) (m_aDivisions d2) (m_cDivisions d2) = U"
        by (simp add: U_def union_count_def)
      have a1: "pv1' = m1 + (m_cDivisions d1 * m1 + rank1 (m1 * (m_cDivisions d1 + 1)) (zip st2 (zip ds1 ds2)))"
        using ih(2) by (simp add: n1_def algebra_simps)
      have a2: "pv2' = m2 + (m_cDivisions d2 * m2 + rank2 (m2 * (m_cDivisions d2 + 1)) (zip st2 (zip ds1 ds2)))"
        using ih(3) by (simp add: n2_def algebra_simps)
      have a3: "U * mT + rankT (mT * (U + 1)) (zip st2 (zip ds1 ds2)) + mT = rankT (mT * (U + 1)) ?zs" for mT
        using ih(4) [of "mT * (U + 1)"] by (simp add: algebra_simps)
      show ?thesis
        unfolding r using oks h ih(1) a1 a2 a3 z1 z2 m0 mU
        by (simp add: U_def [symmetric])
    qed
  qed
qed simp_all

text \<open>
  The cursors into the two operands never pass the cursor into the union grid, and stay
  within the cells of the operands; the initial stack puts each position at the end of its
  grid.
\<close>

lemma union_count_ge:
  assumes "dim_ok d1" "dim_ok d2"
  shows "m_cDivisions d1 \<le> union_count d1 d2" and "m_cDivisions d2 \<le> union_count d1 d2"
proof -
  from assms have s: "sorted_wrt (<) (take (m_cDivisions d1) (m_aDivisions d1))"
    "sorted_wrt (<) (take (m_cDivisions d2) (m_aDivisions d2))"
    and l: "m_cDivisions d1 \<le> length (m_aDivisions d1)" "m_cDivisions d2 \<le> length (m_aDivisions d2)"
    by (simp_all add: dim_ok_def wf_dimension_def)
  show "m_cDivisions d1 \<le> union_count d1 d2"
    unfolding union_count_def by (rule merged_ge(1) [OF s l])
  show "m_cDivisions d2 \<le> union_count d1 d2"
    unfolding union_count_def by (rule merged_ge(2) [OF s l])
qed

lemma union_count_commute: "union_count d2 d1 = union_count d1 d2"
  by (simp add: union_count_def merged_def Un_commute)

lemma rank1_le_rankT:
  assumes "list_all entry_ok zs" and "m \<le> mT"
  shows "rank1 m zs \<le> rankT mT zs"
  using assms
proof (induction zs arbitrary: m mT)
  case Nil
  show ?case by simp
next
  case (Cons z zs)
  obtain s d1 d2 where z: "z = (s, d1, d2)" by (cases z)
  from Cons.prems(1) z have ok: "entry_ok (s, d1, d2)" and oks: "list_all entry_ok zs" by simp_all
  note c = entry_ok_cursors [OF ok]
  from ok have dk: "dim_ok d1" "dim_ok d2" by (simp_all add: entry_ok_def)
  have "m_pDivision1 s \<le> merged (m_aDivisions d1) (m_pDivision1 s) (m_aDivisions d2) (m_pDivision2 s)"
    by (rule merged_ge(1) [OF c])
  then have h: "m_pDivision1 s * m
      \<le> merged (m_aDivisions d1) (m_pDivision1 s) (m_aDivisions d2) (m_pDivision2 s) * mT"
    using Cons.prems(2) by (rule mult_le_mono)
  have "m_cDivisions d1 + 1 \<le> union_count d1 d2 + 1" using union_count_ge(1) [OF dk] by simp
  with Cons.prems(2) have "m * (m_cDivisions d1 + 1) \<le> mT * (union_count d1 d2 + 1)"
    by (rule mult_le_mono)
  from Cons.IH [OF oks this] h show ?case unfolding z by simp
qed

lemma rank2_le_rankT:
  assumes "list_all entry_ok zs" and "m \<le> mT"
  shows "rank2 m zs \<le> rankT mT zs"
  using assms
proof (induction zs arbitrary: m mT)
  case Nil
  show ?case by simp
next
  case (Cons z zs)
  obtain s d1 d2 where z: "z = (s, d1, d2)" by (cases z)
  from Cons.prems(1) z have ok: "entry_ok (s, d1, d2)" and oks: "list_all entry_ok zs" by simp_all
  note c = entry_ok_cursors [OF ok]
  from ok have dk: "dim_ok d1" "dim_ok d2" by (simp_all add: entry_ok_def)
  have "m_pDivision2 s \<le> merged (m_aDivisions d1) (m_pDivision1 s) (m_aDivisions d2) (m_pDivision2 s)"
    by (rule merged_ge(2) [OF c])
  then have h: "m_pDivision2 s * m
      \<le> merged (m_aDivisions d1) (m_pDivision1 s) (m_aDivisions d2) (m_pDivision2 s) * mT"
    using Cons.prems(2) by (rule mult_le_mono)
  have "m_cDivisions d2 + 1 \<le> union_count d1 d2 + 1" using union_count_ge(2) [OF dk] by simp
  with Cons.prems(2) have "m * (m_cDivisions d2 + 1) \<le> mT * (union_count d1 d2 + 1)"
    by (rule mult_le_mono)
  from Cons.IH [OF oks this] h show ?case unfolding z by simp
qed

lemma rank1_bound:
  assumes "list_all entry_ok (zip st (zip ds1 ds2))"
    and "length st \<le> length ds1" "length st \<le> length ds2"
  shows "m + rank1 m (zip st (zip ds1 ds2)) \<le> m * segments (take (length st) ds1)"
  using assms
proof (induction st arbitrary: ds1 ds2 m)
  case Nil
  show ?case by (simp add: segments_def)
next
  case (Cons s st)
  from Cons.prems(2,3) obtain d1 r1 d2 r2 where d: "ds1 = d1 # r1" "ds2 = d2 # r2"
    by (cases ds1; cases ds2) simp_all
  from Cons.prems d have ok: "entry_ok (s, d1, d2)" and oks: "list_all entry_ok (zip st (zip r1 r2))"
    and l: "length st \<le> length r1" "length st \<le> length r2"
    by simp_all
  define M where "M = m * (m_cDivisions d1 + 1)"
  define S where "S = segments (take (length st) r1)"
  from ok have "m_pDivision1 s \<le> m_cDivisions d1" by (simp add: entry_ok_def)
  then have "m_pDivision1 s * m \<le> m_cDivisions d1 * m" by (rule mult_le_mono1)
  then have "m + (m_pDivision1 s * m + rank1 M (zip st (zip r1 r2)))
      \<le> m + (m_cDivisions d1 * m + rank1 M (zip st (zip r1 r2)))"
    by simp
  also have "\<dots> = M + rank1 M (zip st (zip r1 r2))" by (simp add: M_def)
  also have "\<dots> \<le> M * S" unfolding S_def by (rule Cons.IH [OF oks l])
  also have "\<dots> = m * ((m_cDivisions d1 + 1) * S)" by (simp add: M_def algebra_simps)
  finally show ?case unfolding d by (simp add: segments_def M_def S_def)
qed

lemma rank2_bound:
  assumes "list_all entry_ok (zip st (zip ds1 ds2))"
    and "length st \<le> length ds1" "length st \<le> length ds2"
  shows "m + rank2 m (zip st (zip ds1 ds2)) \<le> m * segments (take (length st) ds2)"
  using assms
proof (induction st arbitrary: ds1 ds2 m)
  case Nil
  show ?case by (simp add: segments_def)
next
  case (Cons s st)
  from Cons.prems(2,3) obtain d1 r1 d2 r2 where d: "ds1 = d1 # r1" "ds2 = d2 # r2"
    by (cases ds1; cases ds2) simp_all
  from Cons.prems d have ok: "entry_ok (s, d1, d2)" and oks: "list_all entry_ok (zip st (zip r1 r2))"
    and l: "length st \<le> length r1" "length st \<le> length r2"
    by simp_all
  define M where "M = m * (m_cDivisions d2 + 1)"
  define S where "S = segments (take (length st) r2)"
  from ok have "m_pDivision2 s \<le> m_cDivisions d2" by (simp add: entry_ok_def)
  then have "m_pDivision2 s * m \<le> m_cDivisions d2 * m" by (rule mult_le_mono1)
  then have "m + (m_pDivision2 s * m + rank2 M (zip st (zip r1 r2)))
      \<le> m + (m_cDivisions d2 * m + rank2 M (zip st (zip r1 r2)))"
    by simp
  also have "\<dots> = M + rank2 M (zip st (zip r1 r2))" by (simp add: M_def)
  also have "\<dots> \<le> M * S" unfolding S_def by (rule Cons.IH [OF oks l])
  also have "\<dots> = m * ((m_cDivisions d2 + 1) * S)" by (simp add: M_def algebra_simps)
  finally show ?case unfolding d by (simp add: segments_def M_def S_def)
qed

lemma full_entry_ranks:
  assumes "length ds1 = length ds2" and "list_all dim_ok ds1" "list_all dim_ok ds2"
  shows "list_all entry_ok (zip (map2 full_entry ds1 ds2) (zip ds1 ds2))
     \<and> m + rank1 m (zip (map2 full_entry ds1 ds2) (zip ds1 ds2)) = m * segments ds1
     \<and> m + rank2 m (zip (map2 full_entry ds1 ds2) (zip ds1 ds2)) = m * segments ds2
     \<and> m + rankT m (zip (map2 full_entry ds1 ds2) (zip ds1 ds2)) = m * new_segments ds1 ds2"
  using assms
proof (induction ds1 ds2 arbitrary: m rule: list_induct2)
  case Nil
  show ?case by (simp add: segments_def)
next
  case (Cons d1 ds1 d2 ds2)
  from Cons.prems have dk: "dim_ok d1" "dim_ok d2" and oks: "list_all dim_ok ds1" "list_all dim_ok ds2"
    by simp_all
  let ?zs = "zip (map2 full_entry ds1 ds2) (zip ds1 ds2)"
  have h: "entry_ok (full_entry d1 d2, d1, d2)" using dk by (simp add: entry_ok_def full_entry_def)
  have mU: "merged (m_aDivisions d1) (m_cDivisions d1) (m_aDivisions d2) (m_cDivisions d2) = union_count d1 d2"
    by (simp add: union_count_def)
  from Cons.IH [OF oks] have ih: "list_all entry_ok ?zs"
    "\<And>m. m + rank1 m ?zs = m * segments ds1"
    "\<And>m. m + rank2 m ?zs = m * segments ds2"
    "\<And>m. m + rankT m ?zs = m * new_segments ds1 ds2"
    by simp_all
  have a1: "m + (m_cDivisions d1 * m + rank1 (m * (m_cDivisions d1 + 1)) ?zs)
      = m * ((m_cDivisions d1 + 1) * segments ds1)"
    using ih(2) [of "m * (m_cDivisions d1 + 1)"] by (simp add: algebra_simps)
  have a2: "m + (m_cDivisions d2 * m + rank2 (m * (m_cDivisions d2 + 1)) ?zs)
      = m * ((m_cDivisions d2 + 1) * segments ds2)"
    using ih(3) [of "m * (m_cDivisions d2 + 1)"] by (simp add: algebra_simps)
  have a3: "m + (union_count d1 d2 * m + rankT (m * (union_count d1 d2 + 1)) ?zs)
      = m * ((union_count d1 d2 + 1) * new_segments ds1 ds2)"
    using ih(4) [of "m * (union_count d1 d2 + 1)"] by (simp add: algebra_simps)
  have s1: "segments (d1 # ds1) = (m_cDivisions d1 + 1) * segments ds1"
    and s2: "segments (d2 # ds2) = (m_cDivisions d2 + 1) * segments ds2"
    by (simp_all add: segments_def)
  have f: "m_pDivision1 (full_entry d1 d2) = m_cDivisions d1"
    "m_pDivision2 (full_entry d1 d2) = m_cDivisions d2"
    by (simp_all add: full_entry_def)
  show ?case
    unfolding s1 s2 using h ih(1) a1 a2 a3 by (simp add: f mU)
qed

lemma swap_full_entry:
  "length ds1 = length ds2 \<Longrightarrow> map swap_entry (map2 full_entry ds1 ds2) = map2 full_entry ds2 ds1"
  by (induction ds1 ds2 rule: list_induct2)
     (simp_all add: swap_entry_def full_entry_def union_count_commute)

lemma new_segments_commute:
  "length ds1 = length ds2 \<Longrightarrow> new_segments ds2 ds1 = new_segments ds1 ds2"
  by (induction ds1 ds2 rule: list_induct2) (simp_all add: union_count_commute)

lemma zip_take_stack:
  assumes "length st = n"
  shows "zip st (zip (take n ds1) (take n ds2)) = zip st (zip ds1 ds2)"
proof -
  have "zip st (zip (take n ds1) (take n ds2)) = zip (take n st) (take n (zip ds1 ds2))"
    using assms by (simp add: take_zip)
  also have "\<dots> = take n (zip st (zip ds1 ds2))" by (simp add: take_zip)
  also have "\<dots> = zip st (zip ds1 ds2)" using assms by simp
  finally show ?thesis .
qed

text \<open>
  The two runs of the loop over the cells, one for \<open>A.Add(B)\<close> and one for \<open>B.Add(A)\<close>,
  in lockstep: they visit the same cell of the union grid with the same pair of cells of the
  operands, which neither run has overwritten yet.
\<close>

lemma add_loop_commute:
  fixes vs ws A0 B0 :: "'v::plus list"
  assumes comm: "\<And>x y :: 'v. x + y = y + x"
    and "add_loop L ds1 ds2 st p1 p2 pTop vs B0 = Some (stF, p1F, p2F, vsF)"
    and "add_loop L ds2 ds1 (map swap_entry st) p2 p1 pTop ws A0 = Some (stG, p2G, p1G, wsG)"
    and "list_all entry_ok (zip st (zip ds1 ds2))"
    and "length st \<le> length ds1" "length st \<le> length ds2"
    and "p1 = L + rank1 L (zip st (zip ds1 ds2))"
    and "p2 = L + rank2 L (zip st (zip ds1 ds2))"
    and "pTop = L + rankT L (zip st (zip ds1 ds2))"
    and "L * segments (take (length st) ds1) \<le> length A0"
    and "L * segments (take (length st) ds2) \<le> length B0"
    and "\<forall>k. pTop \<le> k \<and> k < N \<longrightarrow> vs ! k = ws ! k"
    and "\<forall>k. k < pTop \<and> k < length A0 \<longrightarrow> vs ! k = A0 ! k"
    and "\<forall>k. k < pTop \<and> k < length B0 \<longrightarrow> ws ! k = B0 ! k"
  shows "length vsF = length vs \<and> length wsG = length ws \<and> (\<forall>k < N. vsF ! k = wsG ! k)"
  using assms(2-)
proof (induction L ds1 ds2 st p1 p2 pTop vs B0 arbitrary: ws rule: add_loop.induct)
  case (1 L ds1 ds2 st p1 p2 pTop vs B0)
  let ?zs = "zip st (zip ds1 ds2)"
  note ok = "1.prems"(3) and len = "1.prems"(4,5)
  note i1 = "1.prems"(6) and i2 = "1.prems"(7) and iT = "1.prems"(8)
  note bA = "1.prems"(9) and bB = "1.prems"(10)
  note agree = "1.prems"(11) and lowA = "1.prems"(12) and lowB = "1.prems"(13)
  from "1.prems"(1) have g: "\<not> (L = 0 \<or> pTop < L)"
    by (subst (asm) add_loop.simps) (simp split: if_splits)
  then have L: "0 < L" "L \<le> pTop" by simp_all
  from "1.prems"(1) g obtain vs1 where
    c1: "add_copy (pTop - L) p1 p2 pTop vs B0 = Some vs1"
    by (subst (asm) add_loop.simps) (simp split: option.splits)
  from "1.prems"(2) g obtain ws1 where
    c2: "add_copy (pTop - L) p2 p1 pTop ws A0 = Some ws1"
    by (subst (asm) add_loop.simps) (simp split: option.splits)
  have le1: "p1 \<le> pTop" unfolding i1 iT using rank1_le_rankT [OF ok order_refl] by simp
  have le2: "p2 \<le> pTop" unfolding i2 iT using rank2_le_rankT [OF ok order_refl] by simp
  have inA: "p1 \<le> length A0" unfolding i1 using rank1_bound [OF ok len] bA by (rule order_trans)
  have inB: "p2 \<le> length B0" unfolding i2 using rank2_bound [OF ok len] bB by (rule order_trans)
  have ge1: "L \<le> p1" using i1 by simp
  have ge2: "L \<le> p2" using i2 by simp
  have e: "pTop - L < pTop" using L by simp
  note r1 = add_copy_result [OF c1 e le1]
  note r2 = add_copy_result [OF c2 e le2]
  have agree': "\<forall>k. pTop - L \<le> k \<and> k < N \<longrightarrow> vs1 ! k = ws1 ! k"
  proof (intro allI impI)
    fix k assume k: "pTop - L \<le> k \<and> k < N"
    show "vs1 ! k = ws1 ! k"
    proof (cases "pTop \<le> k")
      case True
      then have "vs1 ! k = vs ! k" "ws1 ! k = ws ! k" using r1 r2 by simp_all
      with agree True k show ?thesis by simp
    next
      case False
      define j1 where "j1 = p1 - (pTop - k)"
      define j2 where "j2 = p2 - (pTop - k)"
      from False k have kk: "pTop - L \<le> k \<and> k < pTop" by simp
      have v: "vs1 ! k = vs ! j1 + B0 ! j2" using r1 kk by (simp add: j1_def j2_def)
      have w: "ws1 ! k = ws ! j2 + A0 ! j1" using r2 kk by (simp add: j1_def j2_def)
      have "j1 < p1" using kk ge1 L unfolding j1_def by arith
      then have "j1 < pTop \<and> j1 < length A0" using le1 inA by simp
      with lowA have a: "vs ! j1 = A0 ! j1" by simp
      have "j2 < p2" using kk ge2 L unfolding j2_def by arith
      then have "j2 < pTop \<and> j2 < length B0" using le2 inB by simp
      with lowB have b: "ws ! j2 = B0 ! j2" by simp
      show ?thesis unfolding v w a b by (rule comm)
    qed
  qed
  have lowA': "\<forall>k. k < pTop - L \<and> k < length A0 \<longrightarrow> vs1 ! k = A0 ! k"
  proof (intro allI impI)
    fix k assume k: "k < pTop - L \<and> k < length A0"
    then have "vs1 ! k = vs ! k" using r1 by simp
    moreover have "k < pTop \<and> k < length A0" using k by arith
    ultimately show "vs1 ! k = A0 ! k" using lowA by simp
  qed
  have lowB': "\<forall>k. k < pTop - L \<and> k < length B0 \<longrightarrow> ws1 ! k = B0 ! k"
  proof (intro allI impI)
    fix k assume k: "k < pTop - L \<and> k < length B0"
    then have "ws1 ! k = ws ! k" using r2 by simp
    moreover have "k < pTop \<and> k < length B0" using k by arith
    ultimately show "ws1 ! k = B0 ! k" using lowB by simp
  qed
  show ?case
  proof (cases "pTop - L = 0")
    case True
    from "1.prems"(1) g c1 True have "vsF = vs1"
      by (subst (asm) add_loop.simps) simp
    moreover from "1.prems"(2) g c2 True have "wsG = ws1"
      by (subst (asm) add_loop.simps) simp
    ultimately show ?thesis using agree' True r1 r2 by simp
  next
    case False
    from "1.prems"(1) g c1 False obtain st' p1' p2' where
      adv: "add_advance st ds1 ds2 L L p1 p2 = Some (st', p1', p2')"
      and rec1: "add_loop L ds1 ds2 st' p1' p2' (pTop - L) vs1 B0 = Some (stF, p1F, p2F, vsF)"
      by (subst (asm) add_loop.simps) (auto split: option.splits)
    have adv2: "add_advance (map swap_entry st) ds2 ds1 L L p2 p1 = Some (map swap_entry st', p2', p1')"
      unfolding add_advance_swap adv by simp
    from "1.prems"(2) g c2 False adv2 have
      rec2: "add_loop L ds2 ds1 (map swap_entry st') p2' p1' (pTop - L) ws1 A0 = Some (stG, p2G, p1G, wsG)"
      by (subst (asm) add_loop.simps) simp
    from add_advance_rank [OF adv ok i1 i2] have
      ok': "list_all entry_ok (zip st' (zip ds1 ds2))"
      and i1': "p1' = L + rank1 L (zip st' (zip ds1 ds2))"
      and i2': "p2' = L + rank2 L (zip st' (zip ds1 ds2))"
      and t: "rankT L (zip st' (zip ds1 ds2)) + L = rankT L ?zs"
      by simp_all
    have iT': "pTop - L = L + rankT L (zip st' (zip ds1 ds2))" using iT t by simp
    from add_advance_frame [OF adv] have sl: "length st' = length st" by simp
    have len': "length st' \<le> length ds1" "length st' \<le> length ds2" using len sl by simp_all
    have bA': "L * segments (take (length st') ds1) \<le> length A0" using bA sl by simp
    have bB': "L * segments (take (length st') ds2) \<le> length B0" using bB sl by simp
    have "length vsF = length vs1 \<and> length wsG = length ws1 \<and> (\<forall>k < N. vsF ! k = wsG ! k)"
      by (rule "1.IH" [OF g c1 False adv refl refl rec1 rec2 ok' len' i1' i2' iT' bA' bB'
            agree' lowA' lowB'])
    then show ?thesis using r1 r2 by simp
  qed
qed

lemma add_zero_result:
  assumes "add_zero e p vs ws = Some vs'" and "p < e"
  shows "length vs' = length vs \<and> (\<forall>k. p \<le> k \<and> k < e \<longrightarrow> vs' ! k = vs ! k + ws ! k)
     \<and> (\<forall>k. k < p \<or> e \<le> k \<longrightarrow> vs' ! k = vs ! k)"
  using assms
proof (induction e p vs ws arbitrary: vs' rule: add_zero.induct)
  case (1 e p vs ws)
  let ?u = "vs[p := vs ! p + ws ! p]"
  from "1.prems"(1) have g: "\<not> (\<not> p < length vs \<or> \<not> p < length ws)"
    by (subst (asm) add_zero.simps) (simp split: if_splits)
  show ?case
  proof (cases "e = p + 1")
    case True
    with "1.prems"(1) g have r: "vs' = ?u"
      by (subst (asm) add_zero.simps) (simp add: Let_def)
    have "vs' ! k = vs ! k + ws ! k" if "p \<le> k \<and> k < e" for k
    proof -
      from that True have "k = p" by arith
      with r g show ?thesis by simp
    qed
    then have "\<forall>k. p \<le> k \<and> k < e \<longrightarrow> vs' ! k = vs ! k + ws ! k" by blast
    moreover have "\<forall>k. k < p \<or> e \<le> k \<longrightarrow> vs' ! k = vs ! k" using r True by auto
    ultimately show ?thesis using r by simp
  next
    case False
    with "1.prems"(1) g have rec: "add_zero e (p + 1) ?u ws = Some vs'"
      by (subst (asm) add_zero.simps) (simp add: Let_def)
    have pe: "p + 1 < e" using False "1.prems"(2) by simp
    from "1.IH" [OF g refl False rec pe] have
      ih: "length vs' = length ?u" "\<forall>k. p + 1 \<le> k \<and> k < e \<longrightarrow> vs' ! k = ?u ! k + ws ! k"
      "\<forall>k. k < p + 1 \<or> e \<le> k \<longrightarrow> vs' ! k = ?u ! k"
      by blast+
    show ?thesis
    proof (intro conjI allI impI)
      show "length vs' = length vs" using ih(1) by simp
    next
      fix k assume k: "p \<le> k \<and> k < e"
      show "vs' ! k = vs ! k + ws ! k"
      proof (cases "k = p")
        case True
        then have "vs' ! k = ?u ! k" using ih(3) by simp
        with True g show ?thesis by simp
      next
        case False
        with k have "p + 1 \<le> k \<and> k < e" by arith
        with ih(2) have "vs' ! k = ?u ! k + ws ! k" by simp
        with False show ?thesis by simp
      qed
    next
      fix k assume k: "k < p \<or> e \<le> k"
      then have "k < p + 1 \<or> e \<le> k" "k \<noteq> p" using pe by auto
      with ih(3) [rule_format, of k] show "vs' ! k = vs ! k" by simp
    qed
  qed
qed

lemma segments_union:
  assumes "length ds = length ds1" "length ds1 = length ds2"
    and "\<forall>i < length ds. m_cDivisions (ds ! i) = union_count (ds1 ! i) (ds2 ! i)"
  shows "segments ds = new_segments ds1 ds2"
  using assms
proof (induction ds ds1 ds2 rule: list_induct3)
  case Nil
  show ?case by (simp add: segments_def)
next
  case (Cons d ds d1 ds1 d2 ds2)
  from Cons.prems have h: "m_cDivisions d = union_count d1 d2" by auto
  from Cons.prems have "\<forall>i < length ds. m_cDivisions (ds ! i) = union_count (ds1 ! i) (ds2 ! i)"
    by auto
  from Cons.IH [OF this] h show ?case by (simp add: segments_def)
qed

lemma Add_run:
  assumes "Add h A B = Some (False, h', A')" and "0 < m_cDimensions A"
    and "wf_tensor A" "wf_tensor B"
    and "increasing_divisions A" "increasing_divisions B"
    and "m_cVectorLength B = m_cVectorLength A"
  obtains h1 t1 stF vsF where
    "EnsureValueCapacity h
       (new_segments (take (m_cDimensions A) (m_aDimensions A)) (take (m_cDimensions A) (m_aDimensions B))
          * m_cVectorLength A) A = Some (False, h1, t1)"
    "add_loop (m_cVectorLength A) (m_aDimensions A) (m_aDimensions B)
       (map2 full_entry (take (m_cDimensions A) (m_aDimensions A)) (take (m_cDimensions A) (m_aDimensions B)))
       (m_cVectorLength A * segments (take (m_cDimensions A) (m_aDimensions A)))
       (m_cVectorLength A * segments (take (m_cDimensions A) (m_aDimensions B)))
       (m_cVectorLength A
          * new_segments (take (m_cDimensions A) (m_aDimensions A)) (take (m_cDimensions A) (m_aDimensions B)))
       (m_aValues t1) (m_aValues B) = Some (stF, m_cVectorLength A, m_cVectorLength A, vsF)"
    "m_aValues A' = vsF" "m_cDimensions A' = m_cDimensions A" "m_cVectorLength A' = m_cVectorLength A"
    "length (m_aDimensions A') = length (m_aDimensions A)"
    "\<forall>i < m_cDimensions A. merge_done (m_aDimensions A' ! i) (m_aDimensions A ! i) (m_aDimensions B ! i)"
proof -
  let ?D = "m_cDimensions A"
  let ?L = "m_cVectorLength A"
  let ?ds1 = "take ?D (m_aDimensions A)" and ?ds2 = "take ?D (m_aDimensions B)"
  from assms(1,2) obtain c1 c2 cn st h1 t1 st' p1 p2 vs' where
    d: "m_cDimensions B = ?D"
    and l: "?D \<le> length (m_aDimensions A)" "?D \<le> length (m_aDimensions B)"
    and f: "add_first ?ds1 ?ds2 1 1 1 = Some (c1, c2, cn, st)"
    and m: "\<not> IsMultiplyError cn (m_cVectorLength A)"
    and e: "EnsureValueCapacity h (cn * m_cVectorLength A) A = Some (False, h1, t1)"
    and lp: "add_loop (m_cVectorLength t1) (m_aDimensions t1) (m_aDimensions B) st
       (sz (m_cVectorLength t1 * c1)) (sz (m_cVectorLength t1 * c2)) (m_cVectorLength t1 * cn)
       (m_aValues t1) (m_aValues B) = Some (st', p1, p2, vs')"
    and p: "p1 = m_cVectorLength t1" "p2 = m_cVectorLength t1"
    and dv: "add_divisions [0..<m_cDimensions t1] st' (m_aDimensions B) h1 (t1\<lparr>m_aValues := vs'\<rparr>)
       = Some (False, h', A')"
    by (rule Add_parts)
  have ok1: "list_all dim_ok ?ds1" using wf_tensor_dim_ok [OF assms(3,5)] .
  have ok2: "list_all dim_ok ?ds2" using wf_tensor_dim_ok [OF assms(4,6)] d by simp
  have len: "length ?ds1 = length ?ds2" using l by simp
  have b1: "1 * segments ?ds1 \<le> size_max" using wf_tensor_segments(1) [OF assms(3)] by simp
  have b2: "1 * segments ?ds2 \<le> size_max" using wf_tensor_segments(1) [OF assms(4)] d by simp
  from add_first_result [OF f len ok1 ok2 b1 b2] have st: "st = map2 full_entry ?ds1 ?ds2"
    and c: "c1 = segments ?ds1" "c2 = segments ?ds2" "cn = new_segments ?ds1 ?ds2"
    by simp_all
  have vcap: "length (m_aValues A) = m_cValueCapacity A" using assms(3) by (simp add: wf_tensor_def)
  from EnsureValueCapacity_success [OF e vcap] have
    t1: "m_aDimensions t1 = m_aDimensions A" "m_cDimensions t1 = ?D" "m_cVectorLength t1 = ?L"
    by simp_all
  have s1: "sz (?L * c1) = ?L * segments ?ds1"
    unfolding c using wf_tensor_segments(2) [OF assms(3)] by (rule sz_id)
  have "m_cVectorLength B * segments (take (m_cDimensions B) (m_aDimensions B)) \<le> size_max"
    by (rule wf_tensor_segments(2) [OF assms(4)])
  then have "?L * segments ?ds2 \<le> size_max" using d assms(7) by simp
  then have s2: "sz (?L * c2) = ?L * segments ?ds2" unfolding c by (rule sz_id)
  from add_loop_frame [OF lp] have
    fr: "length st' = length st" "map m_cNewDivisions st' = map m_cNewDivisions st" by simp_all
  have stlen: "length st = ?D" using st l by simp
  have pre: "\<forall>i \<in> set [0..<?D]. dim_ok (m_aDimensions (t1\<lparr>m_aValues := vs'\<rparr>) ! i) \<and> dim_ok (m_aDimensions B ! i)
           \<and> m_cNewDivisions (st' ! i)
             = union_count (m_aDimensions (t1\<lparr>m_aValues := vs'\<rparr>) ! i) (m_aDimensions B ! i)"
  proof
    fix i assume "i \<in> set [0..<?D]"
    then have i: "i < ?D" by simp
    have n1: "?ds1 ! i = m_aDimensions A ! i" and n2: "?ds2 ! i = m_aDimensions B ! i"
      using i by simp_all
    have "dim_ok (?ds1 ! i)" using ok1 i l by (simp add: list_all_length)
    then have o1: "dim_ok (m_aDimensions A ! i)" using n1 by simp
    have "dim_ok (?ds2 ! i)" using ok2 i l by (simp add: list_all_length)
    then have o2: "dim_ok (m_aDimensions B ! i)" using n2 by simp
    have "m_cNewDivisions (st' ! i) = map m_cNewDivisions st' ! i"
      using i fr(1) stlen by simp
    also have "\<dots> = m_cNewDivisions (st ! i)"
      unfolding fr(2) using i stlen by simp
    also have "\<dots> = union_count (m_aDimensions A ! i) (m_aDimensions B ! i)"
      unfolding st using i l by (simp add: full_entry_def)
    finally show "dim_ok (m_aDimensions (t1\<lparr>m_aValues := vs'\<rparr>) ! i) \<and> dim_ok (m_aDimensions B ! i)
           \<and> m_cNewDivisions (st' ! i)
             = union_count (m_aDimensions (t1\<lparr>m_aValues := vs'\<rparr>) ! i) (m_aDimensions B ! i)"
      using o1 o2 t1 by simp
  qed
  from add_divisions_result [OF dv [unfolded t1] distinct_upt pre] have
    res: "m_cDimensions A' = ?D" "m_aValues A' = vs'" "m_cVectorLength A' = ?L"
    "length (m_aDimensions A') = length (m_aDimensions A)"
    "\<forall>i \<in> set [0..<?D]. merge_done (m_aDimensions A' ! i) (m_aDimensions A ! i) (m_aDimensions B ! i)"
    using t1 by simp_all
  from res(5) have md: "\<forall>i < ?D. merge_done (m_aDimensions A' ! i) (m_aDimensions A ! i) (m_aDimensions B ! i)"
    by simp
  have e': "EnsureValueCapacity h (new_segments ?ds1 ?ds2 * ?L) A = Some (False, h1, t1)"
    using e c by simp
  have lp': "add_loop ?L (m_aDimensions A) (m_aDimensions B) (map2 full_entry ?ds1 ?ds2)
       (?L * segments ?ds1) (?L * segments ?ds2) (?L * new_segments ?ds1 ?ds2)
       (m_aValues t1) (m_aValues B) = Some (st', ?L, ?L, vs')"
    using lp unfolding t1 s1 s2 p st c(3) .
  from e' lp' res(2,1,3,4) md show ?thesis by (rule that)
qed

text \<open>
  C3. Let \<open>A\<close> and \<open>B\<close> be well-formed tensors with the same dimension count and the same
  score vector length, whose divisions are strictly increasing in every dimension, over
  scores whose addition is commutative (as it is for the arithmetic types the template is
  instantiated with). If \<open>A.Add(B)\<close> and \<open>B.Add(A)\<close> both succeed, the two results have the
  same dimension count, the same division sequence in every dimension and the same
  meaningful scores.
\<close>

theorem Add_commutative:
  fixes A B :: "'v::plus SegmentedTensor"
  assumes "\<And>x y :: 'v. x + y = y + x"
    and "wf_tensor A" "wf_tensor B"
    and "increasing_divisions A" "increasing_divisions B"
    and "m_cDimensions B = m_cDimensions A" "m_cVectorLength B = m_cVectorLength A"
    and "Add h1 A B = Some (False, h1', AB)" "Add h2 B A = Some (False, h2', BA)"
  shows "m_cDimensions AB = m_cDimensions A \<and> m_cDimensions BA = m_cDimensions A
     \<and> (\<forall>i < m_cDimensions A. divisions_of AB i = divisions_of BA i)
     \<and> values_of AB = values_of BA"
proof (cases "0 < m_cDimensions A")
  case False
  then have z: "m_cDimensions A = 0" by simp
  then have z': "m_cDimensions B = 0" using assms(6) by simp
  let ?L = "m_cVectorLength A"
  from Add_zero_dims [OF z assms(8)] obtain vs where
    ab: "AB = A\<lparr>m_aValues := vs\<rparr>"
    and r1: "add_zero ?L 0 (m_aValues A) (m_aValues B) = Some vs"
    by blast
  from Add_zero_dims [OF z' assms(9)] assms(7) obtain ws where
    ba: "BA = B\<lparr>m_aValues := ws\<rparr>"
    and r2: "add_zero ?L 0 (m_aValues B) (m_aValues A) = Some ws"
    by auto
  have L: "0 < ?L" using assms(2) by (simp add: wf_tensor_def)
  note x1 = add_zero_result [OF r1 L]
  note x2 = add_zero_result [OF r2 L]
  have c1: "count_values AB = ?L" and c2: "count_values BA = ?L"
    using z z' assms(7) by (simp_all add: ab ba count_values_def)
  have l1: "?L \<le> length vs" using x1 assms(2) z by (simp add: wf_tensor_def count_values_def)
  have l2: "?L \<le> length ws" using x2 assms(3,7) z' by (simp add: wf_tensor_def count_values_def)
  have "vs ! i = ws ! i" if i: "i < ?L" for i
  proof -
    have "vs ! i = m_aValues A ! i + m_aValues B ! i" using x1 i by simp
    moreover have "ws ! i = m_aValues B ! i + m_aValues A ! i" using x2 i by simp
    ultimately show ?thesis using assms(1) by simp
  qed
  then have "take ?L vs = take ?L ws"
    by (intro nth_take_lemma [OF l1 l2]) simp
  then have "values_of AB = values_of BA"
    unfolding values_of_def c1 c2 by (simp add: ab ba)
  then show ?thesis using z z' by (simp add: ab ba)
next
  case True
  let ?D = "m_cDimensions A"
  let ?L = "m_cVectorLength A"
  let ?d1 = "m_aDimensions A" and ?d2 = "m_aDimensions B"
  let ?ds1 = "take ?D ?d1" and ?ds2 = "take ?D ?d2"
  define st where "st = map2 full_entry ?ds1 ?ds2"
  define N where "N = ?L * new_segments ?ds1 ?ds2"
  have True': "0 < m_cDimensions B" using True assms(6) by simp
  from assms(8) True assms(2,3,4,5,7) obtain h1a t1 stF vsF where
    e1: "EnsureValueCapacity h1 (new_segments ?ds1 ?ds2 * ?L) A = Some (False, h1a, t1)"
    and lp1: "add_loop ?L ?d1 ?d2 (map2 full_entry ?ds1 ?ds2)
       (?L * segments ?ds1) (?L * segments ?ds2) (?L * new_segments ?ds1 ?ds2)
       (m_aValues t1) (m_aValues B) = Some (stF, ?L, ?L, vsF)"
    and v1: "m_aValues AB = vsF" and D1: "m_cDimensions AB = ?D" and L1: "m_cVectorLength AB = ?L"
    and ln1: "length (m_aDimensions AB) = length ?d1"
    and md1: "\<forall>i < ?D. merge_done (m_aDimensions AB ! i) (?d1 ! i) (?d2 ! i)"
    by (rule Add_run)
  from assms(9) True' assms(3,2,5,4) assms(7) [symmetric] obtain h2a t2 stG wsG where
    e2: "EnsureValueCapacity h2
       (new_segments (take (m_cDimensions B) ?d2) (take (m_cDimensions B) ?d1) * m_cVectorLength B) B
         = Some (False, h2a, t2)"
    and lp2: "add_loop (m_cVectorLength B) ?d2 ?d1
       (map2 full_entry (take (m_cDimensions B) ?d2) (take (m_cDimensions B) ?d1))
       (m_cVectorLength B * segments (take (m_cDimensions B) ?d2))
       (m_cVectorLength B * segments (take (m_cDimensions B) ?d1))
       (m_cVectorLength B * new_segments (take (m_cDimensions B) ?d2) (take (m_cDimensions B) ?d1))
       (m_aValues t2) (m_aValues A) = Some (stG, m_cVectorLength B, m_cVectorLength B, wsG)"
    and v2: "m_aValues BA = wsG" and D2: "m_cDimensions BA = m_cDimensions B"
    and L2: "m_cVectorLength BA = m_cVectorLength B"
    and ln2: "length (m_aDimensions BA) = length ?d2"
    and md2: "\<forall>i < m_cDimensions B. merge_done (m_aDimensions BA ! i) (?d2 ! i) (?d1 ! i)"
    by (rule Add_run)
  have wfl: "?D \<le> length ?d1" "?D \<le> length ?d2"
    using assms(2,3,6) by (simp_all add: wf_tensor_def)
  have len: "length ?ds1 = length ?ds2" using wfl by simp
  have stlen: "length st = ?D" using wfl by (simp add: st_def)
  have ok1: "list_all dim_ok ?ds1" using wf_tensor_dim_ok [OF assms(2,4)] .
  have ok2: "list_all dim_ok ?ds2" using wf_tensor_dim_ok [OF assms(3,5)] assms(6) by simp
  have zs: "zip st (zip ?d1 ?d2) = zip st (zip ?ds1 ?ds2)"
    by (rule zip_take_stack [OF stlen, symmetric])
  note fr = full_entry_ranks [OF len ok1 ok2, of ?L, folded st_def, folded zs]
  from fr have ok: "list_all entry_ok (zip st (zip ?d1 ?d2))" by blast
  from fr have i1: "?L * segments ?ds1 = ?L + rank1 ?L (zip st (zip ?d1 ?d2))" by simp
  from fr have i2: "?L * segments ?ds2 = ?L + rank2 ?L (zip st (zip ?d1 ?d2))" by simp
  from fr have iT: "N = ?L + rankT ?L (zip st (zip ?d1 ?d2))" unfolding N_def by simp
  have sw: "map2 full_entry ?ds2 ?ds1 = map swap_entry st"
    unfolding st_def by (rule swap_full_entry [OF len, symmetric])
  have nc: "new_segments ?ds2 ?ds1 = new_segments ?ds1 ?ds2"
    by (rule new_segments_commute [OF len])
  have r1: "add_loop ?L ?d1 ?d2 st (?L * segments ?ds1) (?L * segments ?ds2) N
       (m_aValues t1) (m_aValues B) = Some (stF, ?L, ?L, vsF)"
    using lp1 unfolding st_def N_def .
  have r2: "add_loop ?L ?d2 ?d1 (map swap_entry st) (?L * segments ?ds2) (?L * segments ?ds1) N
       (m_aValues t2) (m_aValues A) = Some (stG, ?L, ?L, wsG)"
    using lp2 unfolding assms(6,7) sw nc N_def .
  have vcapA: "length (m_aValues A) = m_cValueCapacity A" using assms(2) by (simp add: wf_tensor_def)
  have vcapB: "length (m_aValues B) = m_cValueCapacity B" using assms(3) by (simp add: wf_tensor_def)
  from EnsureValueCapacity_success [OF e1 vcapA] have
    g1: "new_segments ?ds1 ?ds2 * ?L \<le> length (m_aValues t1)"
    and k1: "take (length (m_aValues A)) (m_aValues t1) = m_aValues A"
    by simp_all
  from EnsureValueCapacity_success [OF e2 vcapB] have
    g2: "new_segments ?ds2 ?ds1 * ?L \<le> length (m_aValues t2)"
    and k2: "take (length (m_aValues B)) (m_aValues t2) = m_aValues B"
    using assms(6,7) by simp_all
  have bA: "?L * segments (take (length st) ?d1) \<le> length (m_aValues A)"
    unfolding stlen using assms(2) by (simp add: wf_tensor_def count_values_segments)
  have bB: "?L * segments (take (length st) ?d2) \<le> length (m_aValues B)"
    unfolding stlen using assms(3,6,7) by (simp add: wf_tensor_def count_values_segments)
  have sl: "length st \<le> length ?d1" "length st \<le> length ?d2" using stlen wfl by simp_all
  have agree: "\<forall>k. N \<le> k \<and> k < N \<longrightarrow> m_aValues t1 ! k = m_aValues t2 ! k" by auto
  have lowA: "\<forall>k. k < N \<and> k < length (m_aValues A) \<longrightarrow> m_aValues t1 ! k = m_aValues A ! k"
  proof (intro allI impI)
    fix k assume "k < N \<and> k < length (m_aValues A)"
    then have "take (length (m_aValues A)) (m_aValues t1) ! k = m_aValues t1 ! k" by simp
    then show "m_aValues t1 ! k = m_aValues A ! k" unfolding k1 by simp
  qed
  have lowB: "\<forall>k. k < N \<and> k < length (m_aValues B) \<longrightarrow> m_aValues t2 ! k = m_aValues B ! k"
  proof (intro allI impI)
    fix k assume "k < N \<and> k < length (m_aValues B)"
    then have "take (length (m_aValues B)) (m_aValues t2) ! k = m_aValues t2 ! k" by simp
    then show "m_aValues t2 ! k = m_aValues B ! k" unfolding k2 by simp
  qed
  from add_loop_commute [OF assms(1) r1 r2 ok sl i1 i2 iT bA bB agree lowA lowB] have
    lv: "length vsF = length (m_aValues t1)" and lw: "length wsG = length (m_aValues t2)"
    and eq: "\<forall>k < N. vsF ! k = wsG ! k"
    by simp_all
  have n1: "N \<le> length vsF" unfolding lv N_def using g1 by (simp add: mult.commute)
  have n2: "N \<le> length wsG" unfolding lw N_def using g2 nc by (simp add: mult.commute)
  have tk: "take N vsF = take N wsG"
    using eq by (intro nth_take_lemma [OF n1 n2]) simp
  have u1: "\<forall>i < length (take ?D (m_aDimensions AB)).
      m_cDivisions (take ?D (m_aDimensions AB) ! i) = union_count (?ds1 ! i) (?ds2 ! i)"
    using md1 by (simp add: merge_done_def)
  have u2: "\<forall>i < length (take ?D (m_aDimensions BA)).
      m_cDivisions (take ?D (m_aDimensions BA) ! i) = union_count (?ds1 ! i) (?ds2 ! i)"
    using md2 assms(6) by (simp add: merge_done_def union_count_commute)
  have q1: "length (take ?D (m_aDimensions AB)) = length ?ds1" using ln1 by simp
  have q2: "length (take ?D (m_aDimensions BA)) = length ?ds1" using ln2 wfl by simp
  have c1: "count_values AB = N"
    unfolding count_values_segments D1 L1 N_def segments_union [OF q1 len u1] ..
  have c2: "count_values BA = N"
    unfolding count_values_segments D2 L2 assms(6,7) N_def segments_union [OF q2 len u2] ..
  have vals: "values_of AB = values_of BA"
    unfolding values_of_def c1 c2 v1 v2 by (rule tk)
  have divs: "divisions_of AB i = divisions_of BA i" if i: "i < ?D" for i
  proof -
    from md1 i have m1: "merge_done (m_aDimensions AB ! i) (?d1 ! i) (?d2 ! i)" by simp
    from md2 i assms(6) have m2: "merge_done (m_aDimensions BA ! i) (?d2 ! i) (?d1 ! i)" by simp
    from m1 have s1: "sorted_wrt (<) (divisions_of AB i)"
      and e1: "set (divisions_of AB i) = set (divisions_of A i) \<union> set (divisions_of B i)"
      unfolding merge_done_def divisions_of_def by blast+
    from m2 have s2: "sorted_wrt (<) (divisions_of BA i)"
      and e2: "set (divisions_of BA i) = set (divisions_of B i) \<union> set (divisions_of A i)"
      unfolding merge_done_def divisions_of_def by blast+
    have "sorted (divisions_of AB i)" "distinct (divisions_of AB i)"
      using s1 by (simp_all add: strict_sorted_iff)
    moreover have "sorted (divisions_of BA i)" "distinct (divisions_of BA i)"
      using s2 by (simp_all add: strict_sorted_iff)
    moreover have "set (divisions_of AB i) = set (divisions_of BA i)"
      unfolding e1 e2 by (rule Un_commute)
    ultimately show ?thesis by (rule sorted_distinct_set_unique)
  qed
  from D1 D2 assms(6) divs vals show ?thesis by simp
qed

theorem Add_commutative_witness:
  "\<exists>h1 AB h2 BA.
     Add heap_ok scenario_D_A scenario_D_B = Some (False, h1, AB)
     \<and> Add heap_ok scenario_D_B scenario_D_A = Some (False, h2, BA)
     \<and> divisions_of AB 0 = divisions_of BA 0 \<and> divisions_of AB 1 = divisions_of BA 1
     \<and> values_of AB = values_of BA"
proof -
  have "\<exists>h' A'. Add heap_ok scenario_D_A scenario_D_B = Some (False, h', A')"
    by (simp add: Add_def size_simps alloc_simps Let_def add_copy.simps
        add_loop.simps add_count.simps add_merge.simps upt_rec scenario_D_A_def scenario_D_B_def
        heap_ok_def)
  then obtain h1 AB where a: "Add heap_ok scenario_D_A scenario_D_B = Some (False, h1, AB)"
    by blast
  have "\<exists>h' A'. Add heap_ok scenario_D_B scenario_D_A = Some (False, h', A')"
    by (simp add: Add_def size_simps alloc_simps Let_def add_copy.simps
        add_loop.simps add_count.simps add_merge.simps upt_rec scenario_D_A_def scenario_D_B_def
        heap_ok_def)
  then obtain h2 BA where b: "Add heap_ok scenario_D_B scenario_D_A = Some (False, h2, BA)"
    by blast
  have wf: "wf_tensor scenario_D_A" "wf_tensor scenario_D_B"
    by (simp_all add: wf_tensor_def wf_dimension_def count_values_def size_simps
        scenario_D_A_def scenario_D_B_def)
  have inc: "increasing_divisions scenario_D_A" "increasing_divisions scenario_D_B"
    by (simp_all add: increasing_divisions_def scenario_D_A_def scenario_D_B_def)
  have d: "m_cDimensions scenario_D_B = m_cDimensions scenario_D_A"
    "m_cVectorLength scenario_D_B = m_cVectorLength scenario_D_A"
    "m_cDimensions scenario_D_A = 2"
    by (simp_all add: scenario_D_A_def scenario_D_B_def)
  have comm: "\<And>x y :: real. x + y = y + x" by simp
  from Add_commutative [OF comm wf inc d(1,2) a b] have
    "\<forall>i < 2. divisions_of AB i = divisions_of BA i" and v: "values_of AB = values_of BA"
    unfolding d(3) by blast+
  then have "divisions_of AB 0 = divisions_of BA 0" "divisions_of AB 1 = divisions_of BA 1"
    by simp_all
  with a b v show ?thesis by blast
qed

end
